theory Spec2Isabelle
  imports Main
begin

section \<open>JavaScript string primitives\<close>

text \<open>
  A JavaScript string is a sequence of code units; it is modelled as a \<open>string\<close>, one
  \<open>char\<close> per code unit, which covers the code units below 256. The primitives below
  are the ones the lexer, the parser and the renderer call.
\<close>

definition NL :: char where
  "NL = CHR 0x0A"

definition CR :: char where
  "CR = CHR 0x0D"

definition BACKTICK :: char where
  "BACKTICK = CHR 0x60"

definition DQUOTE :: char where
  "DQUOTE = CHR 0x22"

definition SQUOTE :: char where
  "SQUOTE = CHR 0x27"

text \<open>White space as \<open>String.prototype.trim\<close> and the regular expression class
  \<open>\s\<close> see it: tab, line feed, vertical tab, form feed, carriage return, space and
  no-break space.\<close>

definition isSpace :: "char \<Rightarrow> bool" where
  "isSpace c \<longleftrightarrow> c \<in> set [CHR 0x09, CHR 0x0A, CHR 0x0B, CHR 0x0C, CHR 0x0D, CHR 0x20, CHR 0xA0]"

text \<open>The regular expression \<open>.\<close> matches every code unit but a line terminator.\<close>

definition isLineTerminator :: "char \<Rightarrow> bool" where
  "isLineTerminator c \<longleftrightarrow> c = NL \<or> c = CR"

text \<open>The regular expression class \<open>\d\<close>.\<close>

definition isDigit :: "char \<Rightarrow> bool" where
  "isDigit c \<longleftrightarrow> c \<in> set ''0123456789''"

definition trim :: "string \<Rightarrow> string" where
  "trim s = rev (dropWhile isSpace (rev (dropWhile isSpace s)))"

definition startsWith :: "string \<Rightarrow> string \<Rightarrow> bool" where
  "startsWith s p \<longleftrightarrow> take (length p) s = p"

definition endsWith :: "string \<Rightarrow> string \<Rightarrow> bool" where
  "endsWith s p \<longleftrightarrow> length p \<le> length s \<and> drop (length s - length p) s = p"

text \<open>\<open>s.substring(a, b)\<close>: both indices are clamped to the length, and swapped when
  \<open>a > b\<close>.\<close>

definition substring :: "string \<Rightarrow> nat \<Rightarrow> nat \<Rightarrow> string" where
  "substring s a b =
     (let a' = min a (length s); b' = min b (length s);
          lo = min a' b'; hi = max a' b'
      in take (hi - lo) (drop lo s))"

text \<open>\<open>s.substring(a)\<close>.\<close>

definition substring_from :: "string \<Rightarrow> nat \<Rightarrow> string" where
  "substring_from s a = drop a s"

text \<open>\<open>s.split(c)\<close> for a one-character separator: the result always has at least
  one piece, and the empty string splits into one empty piece.\<close>

fun split :: "string \<Rightarrow> char \<Rightarrow> string list" where
  "split [] c = [[]]"
| "split (x # xs) c =
     (if x = c then [] # split xs c
      else (case split xs c of [] \<Rightarrow> [[x]] | p # ps \<Rightarrow> (x # p) # ps))"

text \<open>\<open>pieces.join(sep)\<close>.\<close>

fun join :: "string list \<Rightarrow> string \<Rightarrow> string" where
  "join [] sep = []"
| "join [p] sep = p"
| "join (p # q # ps) sep = p @ sep @ join (q # ps) sep"

text \<open>\<open>s[i]\<close>: \<open>None\<close> stands for \<open>undefined\<close>, read out of range.\<close>

definition charAt :: "string \<Rightarrow> nat \<Rightarrow> char option" where
  "charAt s i = (if i < length s then Some (s ! i) else None)"

text \<open>\<open>s.indexOf(p, from)\<close> for a non-empty \<open>p\<close>: the first index at or after
  \<open>from\<close> where \<open>p\<close> occurs; \<open>None\<close> stands for \<open>-1\<close>.\<close>

fun find_sub :: "string \<Rightarrow> string \<Rightarrow> nat option" where
  "find_sub p [] = (if p = [] then Some 0 else None)"
| "find_sub p (x # xs) =
     (if take (length p) (x # xs) = p then Some 0
      else map_option Suc (find_sub p xs))"

definition indexOf :: "string \<Rightarrow> string \<Rightarrow> nat \<Rightarrow> nat option" where
  "indexOf s p from = map_option (\<lambda>k. from + k) (find_sub p (drop from s))"

section \<open>The lexer\<close>

text \<open>A token is the object the lexer pushes. A property the lexer does not set on a
  token of some type is \<open>None\<close> there (\<open>undefined\<close> in the source).\<close>

record token =
  t_type :: string
  t_level :: "nat option"
  t_text :: "string option"
  t_language :: "string option"
  t_code :: "string option"
  t_cells :: "string list option"
  t_content :: "string option"
  t_value :: string
  t_position :: nat
  t_length :: nat

definition blank_token :: token where
  "blank_token = \<lparr>t_type = [], t_level = None, t_text = None, t_language = None,
     t_code = None, t_cells = None, t_content = None, t_value = [], t_position = 0,
     t_length = 0\<rparr>"

subsection \<open>The regular expressions of \<open>tokenize\<close>\<close>

text \<open>The tail \<open>\s+(.+)$\<close> that three of the expressions share. \<open>\s+\<close> first takes
  every white-space character and gives them back one at a time, down to one, until the
  rest of the string is a non-empty run without line terminator; the rest is the group.\<close>

definition dot_plus_end :: "string \<Rightarrow> bool" where
  "dot_plus_end s \<longleftrightarrow> s \<noteq> [] \<and> list_all (\<lambda>c. \<not> isLineTerminator c) s"

fun backtrack_spaces :: "nat \<Rightarrow> string \<Rightarrow> string option" where
  "backtrack_spaces 0 s = None"
| "backtrack_spaces (Suc k) s =
     (if dot_plus_end (drop (Suc k) s) then Some (drop (Suc k) s)
      else backtrack_spaces k s)"

definition spaces_then_rest :: "string \<Rightarrow> string option" where
  "spaces_then_rest s = backtrack_spaces (length (takeWhile isSpace s)) s"

text \<open>\<open>/^(#{1,6})\s+(.+)$/\<close>: the groups are the hashes and the text. The hashes
  must all be taken, since \<open>\s\<close> does not match a hash.\<close>

definition header_match :: "string \<Rightarrow> (string \<times> string) option" where
  "header_match s =
     (let hashes = takeWhile (\<lambda>c. c = CHR ''#'') s in
      if 1 \<le> length hashes \<and> length hashes \<le> 6
      then map_option (\<lambda>txt. (hashes, txt)) (spaces_then_rest (drop (length hashes) s))
      else None)"

text \<open>\<open>/^[\s]*[-*+]\s+(.+)$/\<close>: the group is the item's content.\<close>

definition list_match :: "string \<Rightarrow> string option" where
  "list_match s =
     (case dropWhile isSpace s of
        [] \<Rightarrow> None
      | c # rest \<Rightarrow> if c \<in> set ''-*+'' then spaces_then_rest rest else None)"

text \<open>\<open>/^[\s]*\d+\.\s+(.+)$/\<close>: the digits must all be taken, since a digit is not
  a full stop.\<close>

definition ordered_list_match :: "string \<Rightarrow> string option" where
  "ordered_list_match s =
     (let s' = dropWhile isSpace s; digits = takeWhile isDigit s' in
      if digits = [] then None
      else (case drop (length digits) s' of
              [] \<Rightarrow> None
            | c # rest \<Rightarrow> if c = CHR ''.'' then spaces_then_rest rest else None))"

text \<open>\<open>/^[-*_]{3,}$/\<close>.\<close>

definition hr_test :: "string \<Rightarrow> bool" where
  "hr_test s \<longleftrightarrow> 3 \<le> length s \<and> list_all (\<lambda>c. c \<in> set ''-*_'') s"

definition fence :: string where
  "fence = [BACKTICK, BACKTICK, BACKTICK]"

subsection \<open>\<open>tokenize\<close>\<close>

text \<open>The inner \<open>while\<close> loop of the code-block branch: from line \<open>j\<close>, collect the
  raw lines up to the first one whose trimmed form starts with a fence, or to the end.
  The result is \<open>codeLines\<close> and the final \<open>j\<close>.\<close>

function scan_code :: "string list \<Rightarrow> nat \<Rightarrow> string list \<times> nat" where
  "scan_code lines j =
     (if j < length lines \<and> \<not> startsWith (trim (lines ! j)) fence
      then (let (codeLines, j') = scan_code lines (j + 1) in (lines ! j # codeLines, j'))
      else ([], j))"
  by pat_completeness auto
termination
  by (relation "measure (\<lambda>(lines, j). length lines - j)") auto

declare scan_code.simps [simp del]

lemma scan_code_ge: "j \<le> snd (scan_code lines j)"
proof (induction lines j rule: scan_code.induct)
  case (1 lines j)
  show ?case
  proof (cases "j < length lines \<and> \<not> startsWith (trim (lines ! j)) fence")
    case True
    with 1 have "j + 1 \<le> snd (scan_code lines (j + 1))" by simp
    with True show ?thesis
      by (subst scan_code.simps) (simp add: case_prod_beta)
  next
    case False
    then show ?thesis by (subst scan_code.simps) auto
  qed
qed

text \<open>The body of the \<open>for\<close> loop of \<open>tokenize\<close> at line \<open>i\<close>: the token it
  pushes, and the index the next iteration starts from (\<open>i + 1\<close> after \<open>continue\<close>;
  the code-block branch first moves \<open>i\<close> to the closing fence).\<close>

definition tokenize_step :: "string list \<Rightarrow> nat \<Rightarrow> token \<times> nat" where
  "tokenize_step lines i =
     (let line = lines ! i; trimmedLine = trim line in
      if trimmedLine = [] then
        (blank_token\<lparr>t_type := ''line_break'', t_value := [NL], t_content := Some [NL],
           t_position := i, t_length := 1\<rparr>, i + 1)
      else (case header_match trimmedLine of
        Some (hashes, txt) \<Rightarrow>
          (blank_token\<lparr>t_type := ''header'', t_level := Some (length hashes),
             t_text := Some txt, t_value := line, t_content := Some txt,
             t_position := i, t_length := length line\<rparr>, i + 1)
      | None \<Rightarrow>
      if startsWith trimmedLine fence then
        (let language = trim (substring_from trimmedLine 3);
             (codeLines, j) = scan_code lines (i + 1)
         in (blank_token\<lparr>t_type := ''code_block'', t_language := Some language,
               t_code := Some (join codeLines [NL]), t_value := line,
               t_content := Some (join codeLines [NL]), t_position := i,
               t_length := j - i + 1\<rparr>, j + 1))
      else (case list_match trimmedLine of
        Some content \<Rightarrow>
          (blank_token\<lparr>t_type := ''list_item'', t_content := Some content,
             t_value := line, t_position := i, t_length := length line\<rparr>, i + 1)
      | None \<Rightarrow>
      (case ordered_list_match trimmedLine of
        Some content \<Rightarrow>
          (blank_token\<lparr>t_type := ''ordered_list_item'', t_content := Some content,
             t_value := line, t_position := i, t_length := length line\<rparr>, i + 1)
      | None \<Rightarrow>
      if startsWith trimmedLine ''>'' then
        (blank_token\<lparr>t_type := ''blockquote'',
           t_content := Some (trim (substring_from trimmedLine 1)),
           t_value := line, t_position := i, t_length := length line\<rparr>, i + 1)
      else if hr_test trimmedLine then
        (blank_token\<lparr>t_type := ''hr'', t_value := line, t_content := Some line,
           t_position := i, t_length := length line\<rparr>, i + 1)
      else if startsWith trimmedLine ''|'' \<and> endsWith trimmedLine ''|'' then
        (let cells = filter (\<lambda>cell. cell \<noteq> []) (map trim (split trimmedLine (CHR ''|'')))
         in (blank_token\<lparr>t_type := ''table_row'', t_content := Some trimmedLine,
               t_cells := Some cells, t_value := line, t_position := i,
               t_length := length line\<rparr>, i + 1))
      else
        (blank_token\<lparr>t_type := ''paragraph'', t_content := Some line, t_value := line,
           t_position := i, t_length := length line\<rparr>, i + 1)))))"

lemma tokenize_step_next: "i < snd (tokenize_step lines i)"
proof -
  have "i + 1 \<le> snd (scan_code lines (i + 1))" by (rule scan_code_ge)
  then show ?thesis
    by (simp add: tokenize_step_def Let_def case_prod_beta split: option.split)
qed

text \<open>The \<open>for\<close> loop of \<open>tokenize\<close> from line \<open>i\<close> on: the tokens it pushes, in
  order.\<close>

function tokenize_from :: "string list \<Rightarrow> nat \<Rightarrow> token list" where
  "tokenize_from lines i =
     (if i < length lines
      then fst (tokenize_step lines i) # tokenize_from lines (snd (tokenize_step lines i))
      else [])"
  by pat_completeness auto
termination
proof (relation "measure (\<lambda>(lines, i). length lines - i)")
  show "wf (measure (\<lambda>(lines, i). length lines - i))" by simp
next
  fix lines :: "string list" and i
  assume "i < length lines"
  moreover have "i < snd (tokenize_step lines i)" by (rule tokenize_step_next)
  ultimately show "((lines, snd (tokenize_step lines i)), lines, i)
      \<in> measure (\<lambda>(lines, i). length lines - i)"
    by simp
qed

declare tokenize_from.simps [simp del]

text \<open>\<open>tokenize(text)\<close>.\<close>

definition tokenize :: "string \<Rightarrow> token list" where
  "tokenize text = tokenize_from (split text NL) 0"

section \<open>The parser\<close>

subsection \<open>The syntax tree\<close>

text \<open>A node is the object the parser builds, one constructor per value of its \<open>type\<close>
  property, with the properties the parser sets for that type. A property whose value
  comes from a token is optional as it is there; \<open>children\<close> is optional where the
  renderer tests for it. The objects of \<open>items\<close> and \<open>rows\<close> have types of their own.\<close>

datatype row = TableRow (cells: "string list")

datatype node =
    DocumentNode "node list"
  | HeaderNode "nat option" "string option" "node list option"
  | CodeBlockNode "string option" "string option"
  | ListNode "item list"
  | OrderedListNode "item list"
  | BlockquoteNode "string option" "node list option"
  | HrNode
  | TableNode "row list"
  | ParagraphNode "string option" "node list option"
  | TextNode "string option"
  | BoldNode "string option" "node list option"
  | ItalicNode "string option" "node list option"
  | InlineCodeNode "string option"
  | LinkNode "string option" "string option" "node list option"
  | ImageNode "string option" "string option" "string option"
and item = ListItem "string option" "node list option"

text \<open>The arguments are, in order: \<open>children\<close> of a document; \<open>level\<close>, \<open>text\<close> and
  \<open>children\<close> of a header; \<open>language\<close> and \<open>code\<close> of a code block; \<open>items\<close> of a
  list; \<open>content\<close> and \<open>children\<close> of a blockquote, a paragraph, a bold and an italic
  node and of a list item; \<open>rows\<close> of a table; \<open>content\<close> of a text and an inline-code
  node; \<open>content\<close>, \<open>url\<close> and \<open>children\<close> of a link; \<open>content\<close>, \<open>src\<close> and
  \<open>alt\<close> of an image.\<close>

subsection \<open>\<open>parseInlineContent\<close>\<close>

text \<open>The state of the scan is \<open>children\<close> and \<open>currentText\<close>.\<close>

type_synonym inline_state = "node list \<times> string"

text \<open>``Add any accumulated text'': the first statement of every marker branch.\<close>

definition flush_text :: "inline_state \<Rightarrow> inline_state" where
  "flush_text st =
     (case st of (children, currentText) \<Rightarrow>
        if currentText \<noteq> [] then (children @ [TextNode (Some currentText)], [])
        else (children, currentText))"

definition push_node :: "inline_state \<Rightarrow> node \<Rightarrow> inline_state" where
  "push_node st n = (case st of (children, currentText) \<Rightarrow> (children @ [n], currentText))"

text \<open>A marker branch either pushes a node and continues the loop at a new index, or
  falls out of its \<open>if\<close>, having at most flushed the text.\<close>

datatype outcome = Continue nat inline_state | Fallthrough inline_state

definition check_bold :: "string \<Rightarrow> nat \<Rightarrow> inline_state \<Rightarrow> outcome" where
  "check_bold text i st =
     (if substring text i (i + 2) = ''**'' then
        (let st' = flush_text st in
         case indexOf text ''**'' (i + 2) of
           Some endIndex \<Rightarrow>
             Continue (endIndex + 2)
               (push_node st' (BoldNode (Some (substring text (i + 2) endIndex)) None))
         | None \<Rightarrow> Fallthrough st')
      else Fallthrough st)"

definition check_italic :: "string \<Rightarrow> nat \<Rightarrow> inline_state \<Rightarrow> outcome" where
  "check_italic text i st =
     (if charAt text i = Some (CHR ''*'') \<and> charAt text (i + 1) \<noteq> Some (CHR ''*'') then
        (let st' = flush_text st in
         case indexOf text ''*'' (i + 1) of
           Some endIndex \<Rightarrow>
             if charAt text (endIndex + 1) \<noteq> Some (CHR ''*'') then
               Continue (endIndex + 1)
                 (push_node st' (ItalicNode (Some (substring text (i + 1) endIndex)) None))
             else Fallthrough st'
         | None \<Rightarrow> Fallthrough st')
      else Fallthrough st)"

definition check_inline_code :: "string \<Rightarrow> nat \<Rightarrow> inline_state \<Rightarrow> outcome" where
  "check_inline_code text i st =
     (if charAt text i = Some BACKTICK then
        (let st' = flush_text st in
         case indexOf text [BACKTICK] (i + 1) of
           Some endIndex \<Rightarrow>
             Continue (endIndex + 1)
               (push_node st' (InlineCodeNode (Some (substring text (i + 1) endIndex))))
         | None \<Rightarrow> Fallthrough st')
      else Fallthrough st)"

definition check_link :: "string \<Rightarrow> nat \<Rightarrow> inline_state \<Rightarrow> outcome" where
  "check_link text i st =
     (if charAt text i = Some (CHR ''['') then
        (let st' = flush_text st in
         case indexOf text '']'' i of
           Some linkEnd \<Rightarrow>
             if charAt text (linkEnd + 1) = Some (CHR ''('') then
               (let urlStart = linkEnd + 2 in
                case indexOf text '')'' urlStart of
                  Some urlEnd \<Rightarrow>
                    Continue (urlEnd + 1)
                      (push_node st'
                         (LinkNode (Some (substring text (i + 1) linkEnd))
                            (Some (substring text urlStart urlEnd)) None))
                | None \<Rightarrow> Fallthrough st')
             else Fallthrough st'
         | None \<Rightarrow> Fallthrough st')
      else Fallthrough st)"

definition check_image :: "string \<Rightarrow> nat \<Rightarrow> inline_state \<Rightarrow> outcome" where
  "check_image text i st =
     (if substring text i (i + 2) = ''!['' then
        (let st' = flush_text st in
         case indexOf text '']'' (i + 2) of
           Some altEnd \<Rightarrow>
             if charAt text (altEnd + 1) = Some (CHR ''('') then
               (let srcStart = altEnd + 2 in
                case indexOf text '')'' srcStart of
                  Some srcEnd \<Rightarrow>
                    Continue (srcEnd + 1)
                      (push_node st'
                         (ImageNode (Some (substring text (i + 2) altEnd))
                            (Some (substring text srcStart srcEnd))
                            (Some (substring text (i + 2) altEnd))))
                | None \<Rightarrow> Fallthrough st')
             else Fallthrough st'
         | None \<Rightarrow> Fallthrough st')
      else Fallthrough st)"

text \<open>One iteration of the \<open>while\<close> loop at index \<open>i\<close>: the checks in the order of the
  source (bold, italic, inline code, link, image), then the regular character. The
  result is the next index and the state.\<close>

definition inline_step :: "string \<Rightarrow> nat \<Rightarrow> inline_state \<Rightarrow> nat \<times> inline_state" where
  "inline_step text i st =
     (case check_bold text i st of Continue i' st' \<Rightarrow> (i', st') | Fallthrough st1 \<Rightarrow>
      case check_italic text i st1 of Continue i' st' \<Rightarrow> (i', st') | Fallthrough st2 \<Rightarrow>
      case check_inline_code text i st2 of Continue i' st' \<Rightarrow> (i', st') | Fallthrough st3 \<Rightarrow>
      case check_link text i st3 of Continue i' st' \<Rightarrow> (i', st') | Fallthrough st4 \<Rightarrow>
      case check_image text i st4 of Continue i' st' \<Rightarrow> (i', st') | Fallthrough st5 \<Rightarrow>
      (i + 1, fst st5, snd st5 @ [text ! i]))"

lemma indexOf_ge: "indexOf s p from = Some k \<Longrightarrow> from \<le> k"
  by (auto simp: indexOf_def)

lemma check_bold_next: "check_bold text i st = Continue i' st' \<Longrightarrow> i < i'"
  by (auto simp: check_bold_def Let_def split: option.splits if_splits dest!: indexOf_ge)

lemma check_italic_next: "check_italic text i st = Continue i' st' \<Longrightarrow> i < i'"
  by (auto simp: check_italic_def Let_def split: option.splits if_splits dest!: indexOf_ge)

lemma check_inline_code_next: "check_inline_code text i st = Continue i' st' \<Longrightarrow> i < i'"
  by (auto simp: check_inline_code_def Let_def split: option.splits if_splits dest!: indexOf_ge)

lemma check_link_next: "check_link text i st = Continue i' st' \<Longrightarrow> i < i'"
  by (auto simp: check_link_def Let_def split: option.splits if_splits dest!: indexOf_ge)

lemma check_image_next: "check_image text i st = Continue i' st' \<Longrightarrow> i < i'"
  by (auto simp: check_image_def Let_def split: option.splits if_splits dest!: indexOf_ge)

lemma inline_step_next: "i < fst (inline_step text i st)"
  unfolding inline_step_def
  by (auto split: outcome.split
      dest: check_bold_next check_italic_next check_inline_code_next check_link_next
        check_image_next)

text \<open>The \<open>while\<close> loop from index \<open>i\<close>, and the final ``Add any remaining text''.\<close>

function inline_loop :: "string \<Rightarrow> nat \<Rightarrow> inline_state \<Rightarrow> node list" where
  "inline_loop text i st =
     (if i < length text
      then inline_loop text (fst (inline_step text i st)) (snd (inline_step text i st))
      else fst (flush_text st))"
  by pat_completeness auto
termination
proof (relation "measure (\<lambda>(text, i, st). length text - i)")
  show "wf (measure (\<lambda>(text, i, st). length text - i))" by simp
next
  fix s :: string and i and st :: inline_state
  assume "i < length s"
  moreover have "i < fst (inline_step s i st)" by (rule inline_step_next)
  ultimately show "((s, fst (inline_step s i st), snd (inline_step s i st)), s, i, st)
      \<in> measure (\<lambda>(text, i, st). length text - i)"
    by (simp add: case_prod_beta diff_less_mono2)
qed

declare inline_loop.simps [simp del]

text \<open>\<open>parseInlineContent(text)\<close>: a missing or empty text has no children.\<close>

definition parseInlineContent :: "string option \<Rightarrow> node list" where
  "parseInlineContent text =
     (case text of
        None \<Rightarrow> []
      | Some t \<Rightarrow> if t = [] then [] else inline_loop t 0 ([], []))"

subsection \<open>The cursor\<close>

record parser =
  tokens :: "token list"
  current :: nat

text \<open>What the parser can throw: reading a property of \<open>undefined\<close> or \<open>null\<close>.\<close>

datatype error = TypeError string | Error string

definition message :: "error \<Rightarrow> string" where
  "message e = (case e of TypeError m \<Rightarrow> m | Error m \<Rightarrow> m)"

definition isAtEnd :: "parser \<Rightarrow> bool" where
  "isAtEnd p \<longleftrightarrow> current p \<ge> length (tokens p)"

definition peek :: "parser \<Rightarrow> token option" where
  "peek p = (if isAtEnd p then None else Some (tokens p ! current p))"

text \<open>\<open>advance()\<close> returns \<open>this.tokens[this.current - 1]\<close>, which is \<open>undefined\<close> when
  the index is \<open>-1\<close> or past the end.\<close>

definition advance :: "parser \<Rightarrow> token option \<times> parser" where
  "advance p =
     (let p' = (if \<not> isAtEnd p then p\<lparr>current := current p + 1\<rparr> else p)
      in ((if current p' = 0 \<or> current p' - 1 \<ge> length (tokens p') then None
           else Some (tokens p' ! (current p' - 1))), p'))"

definition undefined_property :: "string \<Rightarrow> error" where
  "undefined_property name =
     TypeError (''Cannot read properties of undefined (reading '' @ [SQUOTE] @ name
       @ [SQUOTE] @ '')'')"

subsection \<open>The node parsers\<close>

definition parseHeader :: "parser \<Rightarrow> error + node \<times> parser" where
  "parseHeader p =
     (case advance p of
        (None, p') \<Rightarrow> Inl (undefined_property ''level'')
      | (Some token, p') \<Rightarrow>
          Inr (HeaderNode (t_level token) (t_text token)
                 (Some (parseInlineContent (t_text token))), p'))"

definition parseCodeBlock :: "parser \<Rightarrow> error + node \<times> parser" where
  "parseCodeBlock p =
     (case advance p of
        (None, p') \<Rightarrow> Inl (undefined_property ''language'')
      | (Some token, p') \<Rightarrow> Inr (CodeBlockNode (t_language token) (t_code token), p'))"

text \<open>The \<open>while\<close> loop that \<open>parseList\<close>, \<open>parseOrderedList\<close> and \<open>parseTable\<close> share but
  for the token type they test and the object they push: while the cursor is not at the
  end and the current token has type \<open>ty\<close>, advance and push \<open>mk token\<close>.\<close>

function collect :: "string \<Rightarrow> (token \<Rightarrow> 'a) \<Rightarrow> parser \<Rightarrow> 'a list \<Rightarrow> error + 'a list \<times> parser" where
  "collect ty mk p acc =
     (if isAtEnd p then Inr (acc, p)
      else (case peek p of
              None \<Rightarrow> Inl (undefined_property ''type'')
            | Some t \<Rightarrow>
                if t_type t = ty then
                  (case fst (advance p) of
                     None \<Rightarrow> Inl (undefined_property ''content'')
                   | Some token \<Rightarrow> collect ty mk (snd (advance p)) (acc @ [mk token]))
                else Inr (acc, p)))"
  by pat_completeness auto
termination
  by (relation "measure (\<lambda>(ty, mk, p, acc). length (tokens p) - current p)")
    (auto simp: advance_def isAtEnd_def Let_def)

declare collect.simps [simp del]

definition list_item_of :: "token \<Rightarrow> item" where
  "list_item_of token = ListItem (t_content token) (Some (parseInlineContent (t_content token)))"

text \<open>\<open>cells: token.cells || []\<close>.\<close>

definition table_row_of :: "token \<Rightarrow> row" where
  "table_row_of token = TableRow (case t_cells token of Some cs \<Rightarrow> cs | None \<Rightarrow> [])"

definition parseList :: "parser \<Rightarrow> error + node \<times> parser" where
  "parseList p = map_sum id (\<lambda>(items, p'). (ListNode items, p')) (collect ''list_item'' list_item_of p [])"

definition parseOrderedList :: "parser \<Rightarrow> error + node \<times> parser" where
  "parseOrderedList p =
     map_sum id (\<lambda>(items, p'). (OrderedListNode items, p'))
       (collect ''ordered_list_item'' list_item_of p [])"

definition parseBlockquote :: "parser \<Rightarrow> error + node \<times> parser" where
  "parseBlockquote p =
     (case advance p of
        (None, p') \<Rightarrow> Inl (undefined_property ''content'')
      | (Some token, p') \<Rightarrow>
          Inr (BlockquoteNode (t_content token)
                 (Some (parseInlineContent (t_content token))), p'))"

definition parseHorizontalRule :: "parser \<Rightarrow> error + node \<times> parser" where
  "parseHorizontalRule p = Inr (HrNode, snd (advance p))"

definition parseTable :: "parser \<Rightarrow> error + node \<times> parser" where
  "parseTable p = map_sum id (\<lambda>(rows, p'). (TableNode rows, p')) (collect ''table_row'' table_row_of p [])"

definition parseParagraph :: "parser \<Rightarrow> error + node \<times> parser" where
  "parseParagraph p =
     (case advance p of
        (None, p') \<Rightarrow> Inl (undefined_property ''content'')
      | (Some token, p') \<Rightarrow>
          Inr (ParagraphNode (t_content token)
                 (Some (parseInlineContent (t_content token))), p'))"

definition parseText :: "parser \<Rightarrow> error + node \<times> parser" where
  "parseText p =
     (case advance p of
        (None, p') \<Rightarrow> Inl (undefined_property ''content'')
      | (Some token, p') \<Rightarrow> Inr (TextNode (t_content token), p'))"

text \<open>\<open>parseNode()\<close>: the result is the node or \<open>null\<close>, and the cursor.\<close>

definition some_node :: "error + node \<times> parser \<Rightarrow> error + node option \<times> parser" where
  "some_node r = map_sum id (\<lambda>(n, p'). (Some n, p')) r"

definition parseNode :: "parser \<Rightarrow> error + node option \<times> parser" where
  "parseNode p =
     (case peek p of
        None \<Rightarrow> Inr (None, p)
      | Some token \<Rightarrow>
          if t_type token = ''header'' then some_node (parseHeader p)
          else if t_type token = ''code_block'' then some_node (parseCodeBlock p)
          else if t_type token = ''list_item'' then some_node (parseList p)
          else if t_type token = ''ordered_list_item'' then some_node (parseOrderedList p)
          else if t_type token = ''blockquote'' then some_node (parseBlockquote p)
          else if t_type token = ''hr'' then some_node (parseHorizontalRule p)
          else if t_type token = ''table_row'' then some_node (parseTable p)
          else if t_type token = ''line_break'' then Inr (None, snd (advance p))
          else if t_type token = ''paragraph'' then some_node (parseParagraph p)
          else some_node (parseText p))"

lemma advance_cursor:
  "\<not> isAtEnd p \<Longrightarrow> advance p = (Some (tokens p ! current p), p\<lparr>current := current p + 1\<rparr>)"
  by (simp add: advance_def isAtEnd_def Let_def)

lemma collect_cursor:
  "collect ty mk p acc = Inr (xs, p') \<Longrightarrow> tokens p' = tokens p \<and> current p \<le> current p'"
proof (induction ty mk p acc rule: collect.induct)
  case (1 ty mk p acc)
  show ?case
  proof (cases "\<not> isAtEnd p \<and> t_type (tokens p ! current p) = ty")
    case True
    then have adv: "advance p = (Some (tokens p ! current p), p\<lparr>current := current p + 1\<rparr>)"
      by (simp add: advance_cursor)
    from True have pk: "peek p = Some (tokens p ! current p)" by (simp add: peek_def)
    from "1.prems" True adv pk
    have "collect ty mk (p\<lparr>current := current p + 1\<rparr>) (acc @ [mk (tokens p ! current p)]) = Inr (xs, p')"
      by (subst (asm) collect.simps) simp
    with "1.IH" [of "tokens p ! current p" "tokens p ! current p"] True adv pk
    have "tokens p' = tokens (p\<lparr>current := current p + 1\<rparr>)
        \<and> current (p\<lparr>current := current p + 1\<rparr>) \<le> current p'"
      by simp
    then show ?thesis by simp
  next
    case False
    with "1.prems" show ?thesis
      by (subst (asm) collect.simps) (auto simp: peek_def split: if_splits)
  qed
qed

lemma collect_cursor_strict:
  assumes "\<not> isAtEnd p" and "t_type (tokens p ! current p) = ty"
    and "collect ty mk p acc = Inr (xs, p')"
  shows "tokens p' = tokens p \<and> current p < current p'"
proof -
  from assms(1) have adv: "advance p = (Some (tokens p ! current p), p\<lparr>current := current p + 1\<rparr>)"
    by (simp add: advance_cursor)
  from assms(1) have pk: "peek p = Some (tokens p ! current p)" by (simp add: peek_def)
  from assms adv pk
  have "collect ty mk (p\<lparr>current := current p + 1\<rparr>) (acc @ [mk (tokens p ! current p)]) = Inr (xs, p')"
    by (subst (asm) collect.simps) simp
  from collect_cursor [OF this] show ?thesis by simp
qed

lemma parseNode_cursor:
  assumes "\<not> isAtEnd p" and "parseNode p = Inr (n, p')"
  shows "tokens p' = tokens p \<and> current p < current p'"
proof -
  from assms(1) have adv: "advance p = (Some (tokens p ! current p), p\<lparr>current := current p + 1\<rparr>)"
    by (simp add: advance_cursor)
  from assms(1) have pk: "peek p = Some (tokens p ! current p)" by (simp add: peek_def)
  have run: "\<And>ty (mk :: token \<Rightarrow> 'b) xs q. t_type (tokens p ! current p) = ty \<Longrightarrow>
      collect ty mk p [] = Inr (xs, q) \<Longrightarrow> tokens q = tokens p \<and> current p < current q"
    using collect_cursor_strict [OF assms(1)] by blast
  from assms(2) pk adv show ?thesis
    by (auto simp: parseNode_def some_node_def parseHeader_def parseCodeBlock_def
        parseList_def parseOrderedList_def parseBlockquote_def parseHorizontalRule_def
        parseTable_def parseParagraph_def parseText_def map_sum_def
        split: if_splits sum.splits dest: run)
qed

text \<open>The \<open>while\<close> loop of \<open>parse\<close>: \<open>children\<close> is the array of the document so far.\<close>

function parse_loop :: "parser \<Rightarrow> node list \<Rightarrow> error + node" where
  "parse_loop p children =
     (if isAtEnd p then Inr (DocumentNode children)
      else (case parseNode p of
              Inl e \<Rightarrow> Inl e
            | Inr r \<Rightarrow>
                parse_loop (snd r)
                  (case fst r of Some node \<Rightarrow> children @ [node] | None \<Rightarrow> children)))"
  by pat_completeness auto
termination
proof (relation "measure (\<lambda>(p, children). length (tokens p) - current p)")
  show "wf (measure (\<lambda>(p, children). length (tokens p) - current p))" by simp
next
  fix p :: parser and children :: "node list" and r
  assume a: "\<not> isAtEnd p" and b: "parseNode p = Inr r"
  from b have "parseNode p = Inr (fst r, snd r)" by simp
  from parseNode_cursor [OF a this] a
  show "((snd r, case fst r of None \<Rightarrow> children | Some node \<Rightarrow> children @ [node]), p, children)
      \<in> measure (\<lambda>(p, children). length (tokens p) - current p)"
    by (simp add: isAtEnd_def diff_less_mono2)
qed

declare parse_loop.simps [simp del]

text \<open>\<open>parse(tokens)\<close>.\<close>

definition parse :: "token list \<Rightarrow> error + node" where
  "parse ts = parse_loop \<lparr>tokens = ts, current = 0\<rparr> []"

section \<open>The renderer\<close>

text \<open>The options the renderer reads.\<close>

record options =
  highlight :: bool
  theme :: string

text \<open>\<open>hljs.highlight(code, { language })\<close> is a library outside the repository: the
  renderer takes it as a parameter. The result is the \<open>value\<close> of the highlighted code,
  or \<open>None\<close> when the call throws.\<close>

type_synonym highlighter = "string option \<Rightarrow> string \<Rightarrow> string option"

text \<open>\<open>s.replace(/c/g, r)\<close> for a one-character pattern.\<close>

definition replace_all :: "char \<Rightarrow> string \<Rightarrow> string \<Rightarrow> string" where
  "replace_all c r s = concat (map (\<lambda>x. if x = c then r else [x]) s)"

text \<open>\<open>escapeHtml(text)\<close>: a value that is not a string gives the empty string.\<close>

definition escapeHtml :: "string option \<Rightarrow> string" where
  "escapeHtml text =
     (case text of
        None \<Rightarrow> []
      | Some s \<Rightarrow>
          replace_all SQUOTE ''&#39;''
            (replace_all DQUOTE ''&quot;''
              (replace_all (CHR ''>'') ''&gt;''
                (replace_all (CHR ''<'') ''&lt;''
                  (replace_all (CHR ''&'') ''&amp;'' s)))))"

text \<open>\<open>value || ''\<close>.\<close>

definition or_empty :: "string option \<Rightarrow> string option" where
  "or_empty v = (case v of None \<Rightarrow> Some [] | Some s \<Rightarrow> Some s)"

text \<open>A number in a template literal is written in decimal; \<open>undefined\<close> is written
  as the word.\<close>

definition digit :: "nat \<Rightarrow> char" where
  "digit d = ''0123456789'' ! d"

function decimal :: "nat \<Rightarrow> string" where
  "decimal n = (if 10 \<le> n then decimal (n div 10) @ [digit (n mod 10)] else [digit n])"
  by pat_completeness auto
termination
  by (relation "measure (\<lambda>n. n)") auto

declare decimal.simps [simp del]

definition template_level :: "nat option \<Rightarrow> string" where
  "template_level level = (case level of None \<Rightarrow> ''undefined'' | Some n \<Rightarrow> decimal n)"

text \<open>\<open>renderInlineContent(node)\<close>, given the node's \<open>children\<close> already rendered and its
  \<open>content\<close>: the children when there are some, the escaped content otherwise.\<close>

definition renderInlineContent :: "string list option \<Rightarrow> string option \<Rightarrow> string" where
  "renderInlineContent rendered content =
     (case rendered of
        Some rs \<Rightarrow> if length rs > 0 then join rs [] else escapeHtml (or_empty content)
      | None \<Rightarrow> escapeHtml (or_empty content))"

text \<open>\<open>renderParagraph\<close> tests \<open>children\<close> the same way, but escapes \<open>content\<close> as it is.\<close>

definition renderParagraph :: "string list option \<Rightarrow> string option \<Rightarrow> string" where
  "renderParagraph rendered content =
     (case rendered of
        Some rs \<Rightarrow>
          if length rs > 0 then ''<p>'' @ join rs [] @ ''</p>''
          else ''<p>'' @ escapeHtml content @ ''</p>''
      | None \<Rightarrow> ''<p>'' @ escapeHtml content @ ''</p>'')"

text \<open>The content of a list item and of a blockquote: the children when the property is
  there (an empty array counts), the escaped content otherwise.\<close>

definition children_or_content :: "string list option \<Rightarrow> string option \<Rightarrow> string" where
  "children_or_content rendered content =
     (case rendered of Some rs \<Rightarrow> join rs [] | None \<Rightarrow> escapeHtml content)"

definition truthy :: "string option \<Rightarrow> bool" where
  "truthy v \<longleftrightarrow> (case v of None \<Rightarrow> False | Some s \<Rightarrow> s \<noteq> [])"

definition renderCodeBlock :: "highlighter \<Rightarrow> options \<Rightarrow> string option \<Rightarrow> string option \<Rightarrow> string" where
  \<open>renderCodeBlock hl opts language code =
     (let code' =
        (if highlight opts \<and> truthy language then
           (case hl code (the language) of
              Some highlighted \<Rightarrow> highlighted
            | None \<Rightarrow> escapeHtml code)
         else escapeHtml code);
          languageClass =
            (if truthy language then '' class="language-'' @ the language @ ''"'' else [])
      in ''<pre><code'' @ languageClass @ ''>'' @ code' @ ''</code></pre>'')\<close>

definition renderCell :: "nat \<Rightarrow> string \<Rightarrow> string" where
  "renderCell index cell =
     (let tag = (if index = 0 then ''th'' else ''td'')
      in ''<'' @ tag @ ''>'' @ escapeHtml (Some cell) @ ''</'' @ tag @ ''>'')"

definition renderTable :: "row list \<Rightarrow> string" where
  "renderTable rows =
     (if rows = [] then []
      else ''<table>'' @ [NL]
        @ join (map (\<lambda>(index, r). ''<tr>'' @ join (map (renderCell index) (cells r)) [] @ ''</tr>'')
                  (enumerate 0 rows)) [NL]
        @ [NL] @ ''</table>'')"

text \<open>\<open>renderNode(node)\<close>, with \<open>renderHeader\<close>, \<open>renderList\<close>, \<open>renderOrderedList\<close> and
  \<open>renderBlockquote\<close> in their places.\<close>

fun renderNode :: "highlighter \<Rightarrow> options \<Rightarrow> node \<Rightarrow> string"
  and renderItem :: "highlighter \<Rightarrow> options \<Rightarrow> item \<Rightarrow> string" where
  "renderNode hl opts (DocumentNode children) = join (map (renderNode hl opts) children) [NL]"
| "renderNode hl opts (HeaderNode level txt children) =
     ''<h'' @ template_level level @ ''>''
     @ renderInlineContent (map_option (map (renderNode hl opts)) children) None
     @ ''</h'' @ template_level level @ ''>''"
| "renderNode hl opts (ParagraphNode content children) =
     renderParagraph (map_option (map (renderNode hl opts)) children) content"
| "renderNode hl opts (CodeBlockNode language code) = renderCodeBlock hl opts language code"
| "renderNode hl opts (ListNode items) =
     ''<ul>'' @ [NL] @ join (map (renderItem hl opts) items) [NL] @ [NL] @ ''</ul>''"
| "renderNode hl opts (OrderedListNode items) =
     ''<ol>'' @ [NL] @ join (map (renderItem hl opts) items) [NL] @ [NL] @ ''</ol>''"
| "renderNode hl opts (BlockquoteNode content children) =
     ''<blockquote>''
     @ children_or_content (map_option (map (renderNode hl opts)) children) content
     @ ''</blockquote>''"
| "renderNode hl opts HrNode = ''<hr>''"
| "renderNode hl opts (TableNode rows) = renderTable rows"
| "renderNode hl opts (TextNode content) = escapeHtml content"
| "renderNode hl opts (BoldNode content children) =
     ''<strong>''
     @ renderInlineContent (map_option (map (renderNode hl opts)) children) content
     @ ''</strong>''"
| "renderNode hl opts (ItalicNode content children) =
     ''<em>''
     @ renderInlineContent (map_option (map (renderNode hl opts)) children) content
     @ ''</em>''"
| "renderNode hl opts (InlineCodeNode content) = ''<code>'' @ escapeHtml content @ ''</code>''"
| \<open>renderNode hl opts (LinkNode content url children) =
     ''<a href="'' @ escapeHtml url @ ''">''
     @ renderInlineContent (map_option (map (renderNode hl opts)) children) content
     @ ''</a>''\<close>
| \<open>renderNode hl opts (ImageNode content src alt) =
     ''<img src="'' @ escapeHtml src @ ''" alt="'' @ escapeHtml alt @ ''" />''\<close>
| "renderItem hl opts (ListItem content children) =
     ''<li>''
     @ children_or_content (map_option (map (renderNode hl opts)) children) content
     @ ''</li>''"

definition wrapInDocument :: "options \<Rightarrow> string \<Rightarrow> string" where
  \<open>wrapInDocument opts content =
     (let themeClass = (if theme opts = ''dark'' then ''dark-theme'' else ''light-theme'')
      in ''<!DOCTYPE html>\<newline>''
       @ ''<html lang="en" class="'' @ themeClass @ ''">\<newline>''
       @ ''<head>\<newline>''
       @ ''    <meta charset="UTF-8">\<newline>''
       @ ''    <meta name="viewport" content="width=device-width, initial-scale=1.0">\<newline>''
       @ ''    <title>Markdown Document</title>\<newline>''
       @ ''    <link rel="stylesheet" href="styles.css">\<newline>''
       @ ''</head>\<newline>''
       @ ''<body>\<newline>''
       @ ''    <div class="container">\<newline>''
       @ ''        '' @ content @ ''\<newline>''
       @ ''    </div>\<newline>''
       @ ''</body>\<newline>''
       @ ''</html>'')\<close>

text \<open>\<open>render(ast)\<close>: \<open>None\<close> stands for a missing tree.\<close>

definition render :: "highlighter \<Rightarrow> options \<Rightarrow> node option \<Rightarrow> error + string" where
  "render hl opts ast =
     (case ast of
        Some (DocumentNode children) \<Rightarrow>
          Inr (wrapInDocument opts (renderNode hl opts (DocumentNode children)))
      | _ \<Rightarrow> Inl (Error ''Invalid AST: expected document node''))"

section \<open>The converter\<close>

text \<open>The values \<open>convert\<close> can be handed as \<open>markdown\<close>: a string, or one of the
  primitive values that have no \<open>split\<close> method.\<close>

datatype js_value = JSString string | JSUndefined | JSNull | JSNumber int | JSBoolean bool

text \<open>\<open>this.lexer.tokenize(markdown)\<close>: \<open>text.split\<close> throws on a value that is not a
  string.\<close>

definition tokenize_value :: "js_value \<Rightarrow> error + token list" where
  "tokenize_value markdown =
     (case markdown of
        JSString s \<Rightarrow> Inr (tokenize s)
      | JSUndefined \<Rightarrow> Inl (undefined_property ''split'')
      | JSNull \<Rightarrow>
          Inl (TypeError (''Cannot read properties of null (reading '' @ [SQUOTE] @ ''split''
                 @ [SQUOTE] @ '')''))
      | JSNumber n \<Rightarrow> Inl (TypeError ''text.split is not a function'')
      | JSBoolean b \<Rightarrow> Inl (TypeError ''text.split is not a function''))"

text \<open>The \<open>options\<close> argument of \<open>convert\<close>: the keys it sets override the renderer's.\<close>

record options_arg =
  arg_highlight :: "bool option"
  arg_theme :: "string option"

definition merge_options :: "options \<Rightarrow> options_arg \<Rightarrow> options" where
  "merge_options base arg =
     \<lparr>highlight = (case arg_highlight arg of Some h \<Rightarrow> h | None \<Rightarrow> highlight base),
      theme = (case arg_theme arg of Some t \<Rightarrow> t | None \<Rightarrow> theme base)\<rparr>"

definition conversion_failed :: "error \<Rightarrow> error" where
  "conversion_failed e = Error (''Conversion failed: '' @ message e)"

text \<open>\<open>convert(markdown, options)\<close>, for a converter whose renderer has the options
  \<open>base\<close>: every error thrown inside is caught and thrown again as a conversion error.\<close>

definition convert :: "highlighter \<Rightarrow> options \<Rightarrow> js_value \<Rightarrow> options_arg \<Rightarrow> error + string" where
  "convert hl base markdown arg =
     (let opts = merge_options base arg in
      case tokenize_value markdown of
        Inl e \<Rightarrow> Inl (conversion_failed e)
      | Inr toks \<Rightarrow>
          (case parse toks of
             Inl e \<Rightarrow> Inl (conversion_failed e)
           | Inr ast \<Rightarrow>
               (case render hl opts (Some ast) of
                  Inl e \<Rightarrow> Inl (conversion_failed e)
                | Inr html \<Rightarrow> Inr html)))"

text \<open>The converter and the renderer start with these options; and a highlighter that
  throws on every call, as \<open>hljs.highlight\<close> does on a language it does not know.\<close>

definition default_options :: options where
  "default_options = \<lparr>highlight = True, theme = ''light''\<rparr>"

definition no_highlighter :: highlighter where
  "no_highlighter code language = None"

section \<open>Reference definitions\<close>

text \<open>The five HTML entities, character by character: what ``HTML-escaped'' means.\<close>

definition escape_char :: "char \<Rightarrow> string" where
  "escape_char c =
     (if c = CHR ''&'' then ''&amp;''
      else if c = CHR ''<'' then ''&lt;''
      else if c = CHR ''>'' then ''&gt;''
      else if c = DQUOTE then ''&quot;''
      else if c = SQUOTE then ''&#39;''
      else [c])"

text \<open>A text with each character replaced by its entity.\<close>

definition escape_text :: "string \<Rightarrow> string" where
  "escape_text s = concat (map escape_char s)"

text \<open>An inline node of depth one: a text, bold, italic, inline-code, link or image node
  with a string content and no \<open>children\<close>; and the markup of such a node with its content
  as escaped literal text, the escape being the entity table above.\<close>

fun flat_inline :: "node \<Rightarrow> bool" where
  "flat_inline (TextNode (Some c)) = True"
| "flat_inline (BoldNode (Some c) None) = True"
| "flat_inline (ItalicNode (Some c) None) = True"
| "flat_inline (InlineCodeNode (Some c)) = True"
| "flat_inline (LinkNode (Some c) (Some url) None) = True"
| "flat_inline (ImageNode (Some c) (Some src) (Some alt)) = (alt = c)"
| "flat_inline n = False"

fun flat_markup :: "node \<Rightarrow> string" where
  "flat_markup (TextNode (Some c)) = escape_text c"
| "flat_markup (BoldNode (Some c) None) = ''<strong>'' @ escape_text c @ ''</strong>''"
| "flat_markup (ItalicNode (Some c) None) = ''<em>'' @ escape_text c @ ''</em>''"
| "flat_markup (InlineCodeNode (Some c)) = ''<code>'' @ escape_text c @ ''</code>''"
| \<open>flat_markup (LinkNode (Some c) (Some url) None) =
     ''<a href="'' @ escape_text url @ ''">'' @ escape_text c @ ''</a>''\<close>
| \<open>flat_markup (ImageNode (Some c) (Some src) (Some alt)) =
     ''<img src="'' @ escape_text src @ ''" alt="'' @ escape_text c @ ''" />''\<close>
| "flat_markup n = []"

text \<open>The priority list of the line classification: the token type and the test on the
  trimmed line, in order. A line has the type of the first test it passes, and is a
  paragraph when it passes none.\<close>

definition priority :: "(string \<times> (string \<Rightarrow> bool)) list" where
  "priority =
     [(''line_break'', \<lambda>t. t = []),
      (''header'', \<lambda>t. header_match t \<noteq> None),
      (''code_block'', \<lambda>t. startsWith t fence),
      (''list_item'', \<lambda>t. list_match t \<noteq> None),
      (''ordered_list_item'', \<lambda>t. ordered_list_match t \<noteq> None),
      (''blockquote'', \<lambda>t. startsWith t ''>''),
      (''hr'', hr_test),
      (''table_row'', \<lambda>t. startsWith t ''|'' \<and> endsWith t ''|'')]"

definition classify :: "string \<Rightarrow> string" where
  "classify line =
     (case find (\<lambda>rule. snd rule (trim line)) priority of
        Some rule \<Rightarrow> fst rule
      | None \<Rightarrow> ''paragraph'')"


text \<open>A fence line, and the body of the fence that line \<open>i\<close> opens: the lines after it,
  up to the first fence line or to the end of the input.\<close>

definition is_fence_line :: "string \<Rightarrow> bool" where
  "is_fence_line l \<longleftrightarrow> startsWith (trim l) fence"

definition fence_body :: "string list \<Rightarrow> nat \<Rightarrow> string list" where
  "fence_body lines i = takeWhile (\<lambda>l. \<not> is_fence_line l) (drop (i + 1) lines)"

text \<open>The cells of a table row as the specification has them: the pieces between the bars,
  trimmed, without the two edge pieces.\<close>

definition edge_trimmed_cells :: "string \<Rightarrow> string list" where
  "edge_trimmed_cells t = map trim (butlast (tl (split t (CHR ''|''))))"

text \<open>The tokens of one type; the node of a blockquote token.\<close>

definition has_type :: "string \<Rightarrow> token \<Rightarrow> bool" where
  "has_type ty token \<longleftrightarrow> t_type token = ty"

definition blockquote_of :: "token \<Rightarrow> node" where
  "blockquote_of token =
     BlockquoteNode (t_content token) (Some (parseInlineContent (t_content token)))"

text \<open>The tree of a token list by recursion on the list, as a reference for the cursor
  loop: \<open>node_at\<close> is the node that starts at the head of the list, if any, with the
  number of tokens it takes, and \<open>build\<close> is the sequence of the nodes.\<close>

definition node_at :: "token list \<Rightarrow> node option \<times> nat" where
  "node_at ts =
     (case ts of
        [] \<Rightarrow> (None, 0)
      | t # rest \<Rightarrow>
          if t_type t = ''header'' then
            (Some (HeaderNode (t_level t) (t_text t) (Some (parseInlineContent (t_text t)))), 1)
          else if t_type t = ''code_block'' then
            (Some (CodeBlockNode (t_language t) (t_code t)), 1)
          else if t_type t = ''list_item'' then
            (Some (ListNode (map list_item_of (takeWhile (has_type ''list_item'') ts))),
             length (takeWhile (has_type ''list_item'') ts))
          else if t_type t = ''ordered_list_item'' then
            (Some (OrderedListNode
                     (map list_item_of (takeWhile (has_type ''ordered_list_item'') ts))),
             length (takeWhile (has_type ''ordered_list_item'') ts))
          else if t_type t = ''blockquote'' then (Some (blockquote_of t), 1)
          else if t_type t = ''hr'' then (Some HrNode, 1)
          else if t_type t = ''table_row'' then
            (Some (TableNode (map table_row_of (takeWhile (has_type ''table_row'') ts))),
             length (takeWhile (has_type ''table_row'') ts))
          else if t_type t = ''line_break'' then (None, 1)
          else if t_type t = ''paragraph'' then
            (Some (ParagraphNode (t_content t) (Some (parseInlineContent (t_content t)))), 1)
          else (Some (TextNode (t_content t)), 1))"

lemma node_at_consumes: "ts \<noteq> [] \<Longrightarrow> 0 < snd (node_at ts)"
  by (cases ts) (simp_all add: node_at_def has_type_def)

function build :: "token list \<Rightarrow> node list" where
  "build ts =
     (if ts = [] then []
      else (case fst (node_at ts) of None \<Rightarrow> [] | Some n \<Rightarrow> [n])
           @ build (drop (snd (node_at ts)) ts))"
  by pat_completeness auto
termination
proof (relation "measure length")
  show "wf (measure length)" by simp
next
  fix ts :: "token list"
  assume "ts \<noteq> []"
  with node_at_consumes [of ts] show "(drop (snd (node_at ts)) ts, ts) \<in> measure length"
    by simp
qed

declare build.simps [simp del]

text \<open>Two adjacent tokens join when they belong to one run: they have the same type,
  and it is one of the three types that the parser groups.\<close>

definition joins :: "token \<Rightarrow> token \<Rightarrow> bool" where
  "joins a b \<longleftrightarrow>
     t_type a = t_type b \<and> t_type a \<in> set [''list_item'', ''ordered_list_item'', ''table_row'']"

section \<open>Properties of the lexer\<close>

text \<open>
  C2. The specification: \<open>tokenize\<close> of the empty string is the empty token sequence, and a
  trailing line terminator produces no extra line and no extra token. The code does
  otherwise: splitting the empty string on the line feed gives the one-element array of
  the empty string, the loop runs once on it, and the blank-line branch pushes a
  \<open>line_break\<close> token. Likewise the text \<open>a\<close> followed by a line feed splits into
  \<open>a\<close> and the empty string, and gives a paragraph token followed by a \<open>line_break\<close>
  token.
\<close>

theorem tokenize_empty_string_gives_line_break:
  "tokenize [] =
     [\<lparr>t_type = ''line_break'', t_level = None, t_text = None, t_language = None,
       t_code = None, t_cells = None, t_content = Some [NL], t_value = [NL],
       t_position = 0, t_length = 1\<rparr>]
   \<and> map t_type (tokenize ''a\<newline>'') = [''paragraph'', ''line_break'']"
  by code_simp

lemma classify_chain:
  "classify line =
     (if trim line = [] then ''line_break''
      else if header_match (trim line) \<noteq> None then ''header''
      else if startsWith (trim line) fence then ''code_block''
      else if list_match (trim line) \<noteq> None then ''list_item''
      else if ordered_list_match (trim line) \<noteq> None then ''ordered_list_item''
      else if startsWith (trim line) ''>'' then ''blockquote''
      else if hr_test (trim line) then ''hr''
      else if startsWith (trim line) ''|'' \<and> endsWith (trim line) ''|'' then ''table_row''
      else ''paragraph'')"
  by (simp add: classify_def priority_def)

lemma step_blank:
  assumes "trim (lines ! i) = []"
  shows "tokenize_step lines i =
     (blank_token\<lparr>t_type := ''line_break'', t_value := [NL], t_content := Some [NL],
        t_position := i, t_length := 1\<rparr>, i + 1)"
  using assms by (simp add: tokenize_step_def Let_def)

lemma step_header:
  assumes "trim (lines ! i) \<noteq> []" and "header_match (trim (lines ! i)) = Some (hashes, x)"
  shows "tokenize_step lines i =
     (blank_token\<lparr>t_type := ''header'', t_level := Some (length hashes),
        t_text := Some x, t_value := lines ! i, t_content := Some x,
        t_position := i, t_length := length (lines ! i)\<rparr>, i + 1)"
  using assms by (simp add: tokenize_step_def Let_def)

lemma step_code_block:
  assumes "trim (lines ! i) \<noteq> []" and "header_match (trim (lines ! i)) = None"
    and "startsWith (trim (lines ! i)) fence"
  shows "tokenize_step lines i =
     (blank_token\<lparr>t_type := ''code_block'',
        t_language := Some (trim (substring_from (trim (lines ! i)) 3)),
        t_code := Some (join (fst (scan_code lines (i + 1))) [NL]), t_value := lines ! i,
        t_content := Some (join (fst (scan_code lines (i + 1))) [NL]), t_position := i,
        t_length := snd (scan_code lines (i + 1)) - i + 1\<rparr>,
      snd (scan_code lines (i + 1)) + 1)"
  using assms by (simp add: tokenize_step_def Let_def case_prod_beta)

lemma step_list_item:
  assumes "trim (lines ! i) \<noteq> []" and "header_match (trim (lines ! i)) = None"
    and "\<not> startsWith (trim (lines ! i)) fence"
    and "list_match (trim (lines ! i)) = Some content"
  shows "tokenize_step lines i =
     (blank_token\<lparr>t_type := ''list_item'', t_content := Some content,
        t_value := lines ! i, t_position := i, t_length := length (lines ! i)\<rparr>, i + 1)"
  using assms by (simp add: tokenize_step_def Let_def)

lemma step_ordered_list_item:
  assumes "trim (lines ! i) \<noteq> []" and "header_match (trim (lines ! i)) = None"
    and "\<not> startsWith (trim (lines ! i)) fence"
    and "list_match (trim (lines ! i)) = None"
    and "ordered_list_match (trim (lines ! i)) = Some content"
  shows "tokenize_step lines i =
     (blank_token\<lparr>t_type := ''ordered_list_item'', t_content := Some content,
        t_value := lines ! i, t_position := i, t_length := length (lines ! i)\<rparr>, i + 1)"
  using assms by (simp add: tokenize_step_def Let_def)

lemma step_rest:
  assumes "trim (lines ! i) \<noteq> []" and "header_match (trim (lines ! i)) = None"
    and "\<not> startsWith (trim (lines ! i)) fence"
    and "list_match (trim (lines ! i)) = None"
    and "ordered_list_match (trim (lines ! i)) = None"
  shows "tokenize_step lines i =
     (if startsWith (trim (lines ! i)) ''>'' then
        (blank_token\<lparr>t_type := ''blockquote'',
           t_content := Some (trim (substring_from (trim (lines ! i)) 1)),
           t_value := lines ! i, t_position := i, t_length := length (lines ! i)\<rparr>, i + 1)
      else if hr_test (trim (lines ! i)) then
        (blank_token\<lparr>t_type := ''hr'', t_value := lines ! i, t_content := Some (lines ! i),
           t_position := i, t_length := length (lines ! i)\<rparr>, i + 1)
      else if startsWith (trim (lines ! i)) ''|'' \<and> endsWith (trim (lines ! i)) ''|'' then
        (blank_token\<lparr>t_type := ''table_row'', t_content := Some (trim (lines ! i)),
           t_cells := Some (filter (\<lambda>cell. cell \<noteq> [])
                              (map trim (split (trim (lines ! i)) (CHR ''|'')))),
           t_value := lines ! i, t_position := i, t_length := length (lines ! i)\<rparr>, i + 1)
      else
        (blank_token\<lparr>t_type := ''paragraph'', t_content := Some (lines ! i),
           t_value := lines ! i, t_position := i, t_length := length (lines ! i)\<rparr>, i + 1))"
  using assms by (simp add: tokenize_step_def Let_def)

lemma tokenize_step_type: "t_type (fst (tokenize_step lines i)) = classify (lines ! i)"
proof (cases "trim (lines ! i) = []")
  case True
  then show ?thesis by (simp add: step_blank classify_chain)
next
  case ne: False
  show ?thesis
  proof (cases "header_match (trim (lines ! i))")
    case (Some a)
    then have "header_match (trim (lines ! i)) = Some (fst a, snd a)" by simp
    from step_header [OF ne this] ne Some show ?thesis by (simp add: classify_chain)
  next
    case h: None
    show ?thesis
    proof (cases "startsWith (trim (lines ! i)) fence")
      case True
      from step_code_block [OF ne h True] ne h True show ?thesis by (simp add: classify_chain)
    next
      case f: False
      show ?thesis
      proof (cases "list_match (trim (lines ! i))")
        case (Some a)
        from step_list_item [OF ne h f Some] ne h f Some show ?thesis
          by (simp add: classify_chain)
      next
        case l: None
        show ?thesis
        proof (cases "ordered_list_match (trim (lines ! i))")
          case (Some a)
          from step_ordered_list_item [OF ne h f l Some] ne h f l Some show ?thesis
            by (simp add: classify_chain)
        next
          case None
          from step_rest [OF ne h f l None] ne h f l None show ?thesis
            by (simp add: classify_chain)
        qed
      qed
    qed
  qed
qed

lemma tokenize_step_local:
  assumes "classify (lines ! i) \<noteq> ''code_block''"
  shows "tokenize_step lines i
    = ((fst (tokenize_step [lines ! i] 0))\<lparr>t_position := i\<rparr>, i + 1)"
proof (cases "trim (lines ! i) = []")
  case True
  then have "trim ([lines ! i] ! 0) = []" by simp
  from step_blank [OF True] step_blank [OF this] show ?thesis by simp
next
  case ne: False
  then have ne': "trim ([lines ! i] ! 0) \<noteq> []" by simp
  show ?thesis
  proof (cases "header_match (trim (lines ! i))")
    case (Some a)
    then have a: "header_match (trim (lines ! i)) = Some (fst a, snd a)" by simp
    then have "header_match (trim ([lines ! i] ! 0)) = Some (fst a, snd a)" by simp
    from step_header [OF ne a] step_header [OF ne' this] show ?thesis by simp
  next
    case h: None
    then have h': "header_match (trim ([lines ! i] ! 0)) = None" by simp
    from assms ne h have f: "\<not> startsWith (trim (lines ! i)) fence"
      by (simp add: classify_chain split: if_splits)
    then have f': "\<not> startsWith (trim ([lines ! i] ! 0)) fence" by simp
    show ?thesis
    proof (cases "list_match (trim (lines ! i))")
      case (Some a)
      then have "list_match (trim ([lines ! i] ! 0)) = Some a" by simp
      from step_list_item [OF ne h f Some] step_list_item [OF ne' h' f' this]
      show ?thesis by simp
    next
      case l: None
      then have l': "list_match (trim ([lines ! i] ! 0)) = None" by simp
      show ?thesis
      proof (cases "ordered_list_match (trim (lines ! i))")
        case (Some a)
        then have "ordered_list_match (trim ([lines ! i] ! 0)) = Some a" by simp
        from step_ordered_list_item [OF ne h f l Some]
          step_ordered_list_item [OF ne' h' f' l' this]
        show ?thesis by simp
      next
        case None
        then have "ordered_list_match (trim ([lines ! i] ! 0)) = None" by simp
        from step_rest [OF ne h f l None] step_rest [OF ne' h' f' l' this]
        show ?thesis by simp
      qed
    qed
  qed
qed

lemma tokenize_from_unfold:
  "i < length lines \<Longrightarrow>
     tokenize_from lines i
       = fst (tokenize_step lines i) # tokenize_from lines (snd (tokenize_step lines i))"
  by (subst tokenize_from.simps) simp

lemma tokenize_from_end: "length lines \<le> i \<Longrightarrow> tokenize_from lines i = []"
  by (subst tokenize_from.simps) simp

lemma tokenize_from_no_fence:
  "list_all (\<lambda>l. classify l \<noteq> ''code_block'') lines \<Longrightarrow>
     map t_type (tokenize_from lines i) = map classify (drop i lines)"
proof (induction lines i rule: tokenize_from.induct)
  case (1 lines i)
  show ?case
  proof (cases "i < length lines")
    case True
    with "1.prems" have nf: "classify (lines ! i) \<noteq> ''code_block''"
      by (simp add: list_all_length)
    have nxt: "snd (tokenize_step lines i) = i + 1"
      by (simp add: tokenize_step_local [OF nf])
    from "1.IH" [OF True "1.prems"] nxt
    have "map t_type (tokenize_from lines (i + 1)) = map classify (drop (i + 1) lines)"
      by simp
    with True nxt show ?thesis
      by (simp add: tokenize_from_unfold tokenize_step_type Cons_nth_drop_Suc [symmetric])
  next
    case False
    then show ?thesis by (simp add: tokenize_from_end)
  qed
qed


text \<open>
  C4. At every line the scan reaches, the token pushed has the type of the first test
  of the priority list that the trimmed line passes, or is a paragraph; but for a code
  block, the token and the next index depend on that line and its index only. When no
  line opens a fence, the token types of a text are the classifications of its lines,
  one by one. A table-row-like line without its trailing bar is a paragraph.
\<close>

theorem classification_by_priority:
  "(i < length lines \<longrightarrow>
      tokenize_from lines i \<noteq> []
      \<and> t_type (hd (tokenize_from lines i)) = classify (lines ! i))
   \<and> (classify (lines ! i) \<noteq> ''code_block'' \<longrightarrow>
        tokenize_step lines i = ((fst (tokenize_step [lines ! i] 0))\<lparr>t_position := i\<rparr>, i + 1))
   \<and> (list_all (\<lambda>l. classify l \<noteq> ''code_block'') (split s NL) \<longrightarrow>
        map t_type (tokenize s) = map classify (split s NL))
   \<and> classify ''| a | b'' = ''paragraph''
   \<and> map t_type (tokenize ''| a | b'') = [''paragraph'']"
proof (intro conjI impI)
  assume "i < length lines"
  then show "tokenize_from lines i \<noteq> []"
    and "t_type (hd (tokenize_from lines i)) = classify (lines ! i)"
    by (simp_all add: tokenize_from_unfold tokenize_step_type)
next
  assume "classify (lines ! i) \<noteq> ''code_block''"
  then show "tokenize_step lines i
      = ((fst (tokenize_step [lines ! i] 0))\<lparr>t_position := i\<rparr>, i + 1)"
    by (rule tokenize_step_local)
next
  assume "list_all (\<lambda>l. classify l \<noteq> ''code_block'') (split s NL)"
  from tokenize_from_no_fence [OF this, of 0]
  show "map t_type (tokenize s) = map classify (split s NL)"
    by (simp add: tokenize_def)
next
  show "classify ''| a | b'' = ''paragraph''" by code_simp
  show "map t_type (tokenize ''| a | b'') = [''paragraph'']" by code_simp
qed

theorem classification_by_priority_witness:
  "map t_type (tokenize ''# h\<newline>\<newline>- a\<newline>1. b\<newline>> q\<newline>---\<newline>| c |\<newline>text'')
     = [''header'', ''line_break'', ''list_item'', ''ordered_list_item'', ''blockquote'', ''hr'',
        ''table_row'', ''paragraph'']"
proof -
  have h: "list_all (\<lambda>l. classify l \<noteq> ''code_block'')
      (split ''# h\<newline>\<newline>- a\<newline>1. b\<newline>> q\<newline>---\<newline>| c |\<newline>text'' NL)"
    by code_simp
  have c: "map classify (split ''# h\<newline>\<newline>- a\<newline>1. b\<newline>> q\<newline>---\<newline>| c |\<newline>text'' NL)
      = [''header'', ''line_break'', ''list_item'', ''ordered_list_item'', ''blockquote'', ''hr'',
        ''table_row'', ''paragraph'']"
    by code_simp
  from classification_by_priority [of 0 "[]" "''# h\<newline>\<newline>- a\<newline>1. b\<newline>> q\<newline>---\<newline>| c |\<newline>text''"] h
  have "map t_type (tokenize ''# h\<newline>\<newline>- a\<newline>1. b\<newline>> q\<newline>---\<newline>| c |\<newline>text'')
      = map classify (split ''# h\<newline>\<newline>- a\<newline>1. b\<newline>> q\<newline>---\<newline>| c |\<newline>text'' NL)"
    by blast
  with c show ?thesis by simp
qed

lemma scan_code_takeWhile:
  "scan_code lines j =
     (takeWhile (\<lambda>l. \<not> is_fence_line l) (drop j lines),
      j + length (takeWhile (\<lambda>l. \<not> is_fence_line l) (drop j lines)))"
proof (induction lines j rule: scan_code.induct)
  case (1 lines j)
  show ?case
  proof (cases "j < length lines \<and> \<not> startsWith (trim (lines ! j)) fence")
    case True
    then have d: "drop j lines = lines ! j # drop (j + 1) lines"
      by (simp add: Cons_nth_drop_Suc)
    from True "1.IH" show ?thesis
      by (subst scan_code.simps) (simp add: d is_fence_line_def)
  next
    case False
    show ?thesis
    proof (cases "j < length lines")
      case True
      then have d: "drop j lines = lines ! j # drop (j + 1) lines"
        by (simp add: Cons_nth_drop_Suc)
      from True False show ?thesis
        by (subst scan_code.simps) (simp add: d is_fence_line_def)
    next
      case False
      then show ?thesis by (subst scan_code.simps) simp
    qed
  qed
qed

lemma fence_not_header: "startsWith t fence \<Longrightarrow> t \<noteq> [] \<and> header_match t = None"
  by (cases t) (auto simp: startsWith_def fence_def header_match_def BACKTICK_def)

text \<open>
  C5. When the scan reaches a fence line, it pushes one \<open>code_block\<close> token: the language
  is the trimmed rest of that line, the code is the raw lines that follow, joined by
  line feeds, up to the first fence line or to the end of the input, and the scan
  continues after the closing fence. When no fence line follows, the token is the last
  one: nothing fails.
\<close>

theorem fenced_code_block:
  assumes "i < length lines" and "is_fence_line (lines ! i)"
  shows "tokenize_from lines i \<noteq> []
    \<and> t_type (hd (tokenize_from lines i)) = ''code_block''
    \<and> t_language (hd (tokenize_from lines i))
        = Some (trim (substring_from (trim (lines ! i)) 3))
    \<and> t_code (hd (tokenize_from lines i)) = Some (join (fence_body lines i) [NL])
    \<and> tl (tokenize_from lines i) = tokenize_from lines (i + length (fence_body lines i) + 2)
    \<and> list_all (\<lambda>l. \<not> is_fence_line l) (fence_body lines i)
    \<and> fence_body lines i = take (length (fence_body lines i)) (drop (i + 1) lines)
    \<and> (i + length (fence_body lines i) + 1 < length lines \<longrightarrow>
          is_fence_line (lines ! (i + length (fence_body lines i) + 1)))
    \<and> (length lines \<le> i + length (fence_body lines i) + 1 \<longrightarrow>
          fence_body lines i = drop (i + 1) lines \<and> tl (tokenize_from lines i) = [])"
proof -
  let ?t = "trim (lines ! i)"
  let ?P = "\<lambda>l. \<not> is_fence_line l"
  from assms(2) have f: "startsWith ?t fence" by (simp add: is_fence_line_def)
  from fence_not_header [OF f] have ne: "?t \<noteq> []" and h: "header_match ?t = None" by simp_all
  note st = step_code_block [OF ne h f]
  have sc: "scan_code lines (i + 1) = (fence_body lines i, i + 1 + length (fence_body lines i))"
    by (simp add: scan_code_takeWhile fence_body_def)
  from assms(1) have u: "tokenize_from lines i
      = fst (tokenize_step lines i) # tokenize_from lines (snd (tokenize_step lines i))"
    by (rule tokenize_from_unfold)
  have all: "list_all ?P (fence_body lines i)"
    by (auto simp: fence_body_def list_all_iff dest: set_takeWhileD)
  have tk: "fence_body lines i = take (length (fence_body lines i)) (drop (i + 1) lines)"
    unfolding fence_body_def by (rule takeWhile_eq_take)
  have closing: "is_fence_line (lines ! (i + length (fence_body lines i) + 1))"
    if "i + length (fence_body lines i) + 1 < length lines"
  proof -
    from that have "length (takeWhile ?P (drop (i + 1) lines)) < length (drop (i + 1) lines)"
      by (simp add: fence_body_def)
    from nth_length_takeWhile [OF this] that show ?thesis
      by (simp add: fence_body_def add.commute add.left_commute)
  qed
  have open_end: "fence_body lines i = drop (i + 1) lines \<and> tl (tokenize_from lines i) = []"
    if "length lines \<le> i + length (fence_body lines i) + 1"
  proof -
    from that have "length (drop (i + 1) lines) \<le> length (fence_body lines i)" by simp
    with tk have "fence_body lines i = drop (i + 1) lines" by (metis take_all)
    moreover from that u st sc have "tl (tokenize_from lines i) = []"
      by (simp add: tokenize_from_end)
    ultimately show ?thesis by simp
  qed
  from u st sc all tk closing open_end show ?thesis
    by (simp add: add.commute add.left_commute)
qed


theorem fenced_code_block_witness:
  "t_type (hd (tokenize ''```js\<newline> code\<newline># x\<newline>```\<newline>after'')) = ''code_block''
   \<and> t_language (hd (tokenize ''```js\<newline> code\<newline># x\<newline>```\<newline>after'')) = Some ''js''
   \<and> t_code (hd (tokenize ''```js\<newline> code\<newline># x\<newline>```\<newline>after'')) = Some '' code\<newline># x''
   \<and> map t_type (tl (tokenize ''```js\<newline> code\<newline># x\<newline>```\<newline>after'')) = [''paragraph'']
   \<and> t_code (hd (tokenize ''```\<newline>never closed'')) = Some ''never closed''
   \<and> tl (tokenize ''```\<newline>never closed'') = []"
proof -
  have l1: "split ''```js\<newline> code\<newline># x\<newline>```\<newline>after'' NL
      = [''```js'', '' code'', ''# x'', ''```'', ''after'']"
    by code_simp
  have i1: "0 < length [''```js'', '' code'', ''# x'', ''```'', ''after'']" by simp
  have f1: "is_fence_line ([''```js'', '' code'', ''# x'', ''```'', ''after''] ! 0)" by code_simp
  have b1: "fence_body [''```js'', '' code'', ''# x'', ''```'', ''after''] 0 = ['' code'', ''# x'']"
    by code_simp
  have r1: "map t_type (tokenize_from [''```js'', '' code'', ''# x'', ''```'', ''after'']
        (Suc (Suc (Suc (Suc 0)))))
      = [''paragraph'']"
    by code_simp
  have g1: "trim (substring_from (trim ''```js'') 3) = ''js''" by code_simp
  have j1: "join ['' code'', ''# x''] [NL] = '' code\<newline># x''" by code_simp
  have l2: "split ''```\<newline>never closed'' NL = [''```'', ''never closed'']" by code_simp
  have i2: "0 < length [''```'', ''never closed'']" by simp
  have f2: "is_fence_line ([''```'', ''never closed''] ! 0)" by code_simp
  have b2: "fence_body [''```'', ''never closed''] 0 = [''never closed'']" by code_simp
  from fenced_code_block [OF i1 f1] b1 r1 g1 j1
  have a: "t_type (hd (tokenize_from [''```js'', '' code'', ''# x'', ''```'', ''after''] 0)) = ''code_block''
    \<and> t_language (hd (tokenize_from [''```js'', '' code'', ''# x'', ''```'', ''after''] 0)) = Some ''js''
    \<and> t_code (hd (tokenize_from [''```js'', '' code'', ''# x'', ''```'', ''after''] 0)) = Some '' code\<newline># x''
    \<and> map t_type (tl (tokenize_from [''```js'', '' code'', ''# x'', ''```'', ''after''] 0)) = [''paragraph'']"
    by simp
  have n2: "length [''```'', ''never closed''] \<le> 0 + length (fence_body [''```'', ''never closed''] 0) + 1"
    by (simp add: b2)
  have j2: "join [''never closed''] [NL] = ''never closed''" by simp
  from fenced_code_block [OF i2 f2] n2
  have "t_code (hd (tokenize_from [''```'', ''never closed''] 0))
      = Some (join (fence_body [''```'', ''never closed''] 0) [NL])
    \<and> tl (tokenize_from [''```'', ''never closed''] 0) = []"
    by blast
  then have b: "t_code (hd (tokenize_from [''```'', ''never closed''] 0)) = Some ''never closed''
    \<and> tl (tokenize_from [''```'', ''never closed''] 0) = []"
    by (simp only: b2 j2)
  show ?thesis
    unfolding tokenize_def l1 l2 using a b by blast
qed

lemma split_not_Nil: "split xs c \<noteq> []"
  by (induction xs) (auto split: list.split)

lemma split_snoc: "split (xs @ [c]) c = split xs c @ [[]]"
proof (induction xs)
  case Nil
  then show ?case by simp
next
  case (Cons x xs)
  obtain p ps where "split xs c = p # ps"
    using split_not_Nil [of xs c] by (cases "split xs c") auto
  with Cons show ?case by simp
qed

lemma trim_Nil: "trim [] = []"
  by (simp add: trim_def)

lemma endsWith_last: "endsWith t [c] \<longleftrightarrow> t \<noteq> [] \<and> last t = c"
proof (cases "t = []")
  case True
  then show ?thesis by (simp add: endsWith_def)
next
  case False
  then have "t = butlast t @ [last t]" by simp
  then have "drop (length t - 1) t = [last t]"
    by (metis append_eq_conv_conj length_butlast)
  with False show ?thesis by (auto simp: endsWith_def Suc_leI)
qed

lemma table_cells_edges:
  assumes "startsWith t ''|''" and "endsWith t ''|''"
  shows "filter (\<lambda>cell. cell \<noteq> []) (map trim (split t (CHR ''|'')))
    = filter (\<lambda>cell. cell \<noteq> []) (edge_trimmed_cells t)"
proof -
  from assms(1) obtain u where t: "t = CHR ''|'' # u"
    by (cases t) (auto simp: startsWith_def)
  show ?thesis
  proof (cases "u = []")
    case True
    with t show ?thesis by (simp add: edge_trimmed_cells_def trim_Nil)
  next
    case False
    from assms(2) t False have "last u = CHR ''|''" by (simp add: endsWith_last)
    with False have "u = butlast u @ [CHR ''|'']" by (metis append_butlast_last_id)
    then obtain v where u: "u = v @ [CHR ''|'']" ..
    have "split t (CHR ''|'') = [] # split v (CHR ''|'') @ [[]]"
      by (simp add: t u split_snoc)
    then show ?thesis by (simp add: edge_trimmed_cells_def trim_Nil)
  qed
qed

lemma table_start:
  assumes "startsWith t ''|''"
  shows "t \<noteq> []" and "header_match t = None" and "\<not> startsWith t fence"
    and "list_match t = None" and "ordered_list_match t = None"
    and "\<not> startsWith t ''>''" and "\<not> hr_test t"
proof -
  from assms obtain u where t: "t = CHR ''|'' # u"
    by (cases t) (auto simp: startsWith_def)
  show "t \<noteq> []" by (simp add: t)
  show "header_match t = None" by (simp add: t header_match_def)
  show "\<not> startsWith t fence" by (simp add: t startsWith_def fence_def BACKTICK_def)
  show "list_match t = None" by (simp add: t list_match_def isSpace_def)
  show "ordered_list_match t = None" by (simp add: t ordered_list_match_def isSpace_def isDigit_def)
  show "\<not> startsWith t ''>''" by (simp add: t startsWith_def)
  show "\<not> hr_test t" by (simp add: t hr_test_def)
qed

text \<open>
  C6, as the code has it. For a line whose trimmed form starts and ends with a bar, the
  scan pushes a \<open>table_row\<close> token whose cells are the trimmed pieces between the bars,
  without every empty one: the two edge pieces, and the empty interior columns too.
  The cells are one per column when no interior column is empty.
\<close>

theorem table_row_cells:
  assumes "i < length lines"
    and "startsWith (trim (lines ! i)) ''|''" and "endsWith (trim (lines ! i)) ''|''"
  shows "t_type (hd (tokenize_from lines i)) = ''table_row''
    \<and> t_cells (hd (tokenize_from lines i))
        = Some (filter (\<lambda>cell. cell \<noteq> []) (map trim (split (trim (lines ! i)) (CHR ''|''))))
    \<and> t_cells (hd (tokenize_from lines i))
        = Some (filter (\<lambda>cell. cell \<noteq> []) (edge_trimmed_cells (trim (lines ! i))))
    \<and> (list_all (\<lambda>cell. cell \<noteq> []) (edge_trimmed_cells (trim (lines ! i))) \<longrightarrow>
          t_cells (hd (tokenize_from lines i)) = Some (edge_trimmed_cells (trim (lines ! i))))"
proof -
  note s = table_start [OF assms(2)]
  from step_rest [OF s(1) s(2) s(3) s(4) s(5)] s(6) s(7) assms(2,3)
  have st: "fst (tokenize_step lines i) =
      blank_token\<lparr>t_type := ''table_row'', t_content := Some (trim (lines ! i)),
        t_cells := Some (filter (\<lambda>cell. cell \<noteq> [])
                           (map trim (split (trim (lines ! i)) (CHR ''|'')))),
        t_value := lines ! i, t_position := i, t_length := length (lines ! i)\<rparr>"
    by simp
  from assms(1) have hd: "hd (tokenize_from lines i) = fst (tokenize_step lines i)"
    by (simp add: tokenize_from_unfold)
  have full: "list_all (\<lambda>cell. cell \<noteq> []) xs \<Longrightarrow> filter (\<lambda>cell. cell \<noteq> []) xs = xs"
    for xs :: "string list"
    by (induction xs) simp_all
  show ?thesis
    by (simp add: hd st table_cells_edges [OF assms(2,3)] full)
qed

theorem table_row_cells_witness:
  "t_type (hd (tokenize ''| a | b |'')) = ''table_row''
   \<and> t_cells (hd (tokenize ''| a | b |'')) = Some [''a'', ''b'']"
proof -
  have l: "split ''| a | b |'' NL = [''| a | b |'']" by code_simp
  have i: "0 < length [''| a | b |'']" by simp
  have s: "startsWith (trim ([''| a | b |''] ! 0)) ''|''" by code_simp
  have e: "endsWith (trim ([''| a | b |''] ! 0)) ''|''" by code_simp
  have c: "filter (\<lambda>cell. cell \<noteq> []) (edge_trimmed_cells (trim ([''| a | b |''] ! 0)))
      = [''a'', ''b'']"
    by code_simp
  from table_row_cells [OF i s e]
  have "t_type (hd (tokenize_from [''| a | b |''] 0)) = ''table_row''
    \<and> t_cells (hd (tokenize_from [''| a | b |''] 0))
        = Some (filter (\<lambda>cell. cell \<noteq> []) (edge_trimmed_cells (trim ([''| a | b |''] ! 0))))"
    by blast
  then have "t_type (hd (tokenize_from [''| a | b |''] 0)) = ''table_row''
    \<and> t_cells (hd (tokenize_from [''| a | b |''] 0)) = Some [''a'', ''b'']"
    by (simp only: c)
  then show ?thesis unfolding tokenize_def l .
qed

text \<open>
  C6, as the specification has it, fails on a row with an empty interior column: it keeps
  three cells, the code two.
\<close>

theorem table_row_drops_interior_empty_cell:
  "t_cells (hd (tokenize ''| a |  | b |'')) = Some [''a'', ''b'']
   \<and> edge_trimmed_cells (trim ''| a |  | b |'') = [''a'', [], ''b'']"
  by code_simp

section \<open>Properties of the renderer\<close>

lemma replace_all_concat:
  "replace_all c r (concat (map f s)) = concat (map (\<lambda>x. replace_all c r (f x)) s)"
  by (induction s) (simp_all add: replace_all_def)

lemma replace_all_as_map: "replace_all c r s = concat (map (\<lambda>x. replace_all c r [x]) s)"
  by (simp add: replace_all_def)

lemma escape_one:
  "replace_all SQUOTE ''&#39;'' (replace_all DQUOTE ''&quot;'' (replace_all (CHR ''>'') ''&gt;''
     (replace_all (CHR ''<'') ''&lt;'' (replace_all (CHR ''&'') ''&amp;'' [x])))) = escape_char x"
  by (simp add: replace_all_def escape_char_def SQUOTE_def DQUOTE_def)

lemma escapeHtml_chars: "escapeHtml (Some s) = concat (map escape_char s)"
proof -
  have "replace_all (CHR ''&'') ''&amp;'' s = concat (map (\<lambda>x. replace_all (CHR ''&'') ''&amp;'' [x]) s)"
    by (rule replace_all_as_map)
  then show ?thesis
    by (simp add: escapeHtml_def replace_all_concat escape_one)
qed

lemma escape_char_safe: "set (escape_char c) \<inter> {CHR ''<'', CHR ''>'', DQUOTE, SQUOTE} = {}"
  by (simp add: escape_char_def SQUOTE_def DQUOTE_def)

lemma escapeHtml_safe: "set (escapeHtml (Some s)) \<inter> {CHR ''<'', CHR ''>'', DQUOTE, SQUOTE} = {}"
  using escape_char_safe by (auto simp: escapeHtml_chars)

text \<open>
  What the renderer does escape. A text node is rendered as its escaped content; a
  link's \<open>href\<close> and an image's \<open>src\<close> and \<open>alt\<close> are the escaped \<open>url\<close>, \<open>src\<close> and
  \<open>alt\<close>. Escaping replaces each of the five characters by its entity, so that none of
  \<open><\<close>, \<open>>\<close> and the two quotes is left in the result. The escape of \<open><\<close> is \<open>&lt;\<close>,
  and the escape of \<open>&lt;\<close> is \<open>&amp;lt;\<close>: escaping is not idempotent.
\<close>

lemma escapeHtml_applied:
  \<open>renderNode hl opts (TextNode (Some s)) = escapeHtml (Some s)
   \<and> renderNode hl opts (LinkNode (Some label) (Some url) None) =
       ''<a href="'' @ escapeHtml (Some url) @ ''">'' @ escapeHtml (Some label) @ ''</a>''
   \<and> renderNode hl opts (ImageNode content (Some src) (Some alt)) =
       ''<img src="'' @ escapeHtml (Some src) @ ''" alt="'' @ escapeHtml (Some alt) @ ''" />''
   \<and> escapeHtml (Some s) = concat (map escape_char s)
   \<and> set (escapeHtml (Some s)) \<inter> {CHR ''<'', CHR ''>'', DQUOTE, SQUOTE} = {}
   \<and> escapeHtml (Some ''<'') = ''&lt;''
   \<and> escapeHtml (Some ''&lt;'') = ''&amp;lt;''
   \<and> escapeHtml (Some ''&lt;'') \<noteq> escapeHtml (Some ''<'')\<close>
proof -
  have a: "escapeHtml (Some ''<'') = ''&lt;''" by (simp add: escapeHtml_chars escape_char_def)
  have b: "escapeHtml (Some ''&lt;'') = ''&amp;lt;''"
    by (simp add: escapeHtml_chars escape_char_def SQUOTE_def DQUOTE_def)
  show ?thesis
    by (simp add: a b escapeHtml_safe renderInlineContent_def or_empty_def)
      (rule escapeHtml_chars)
qed

text \<open>
  C3. Not every attribute value is escaped. The language of a code block is the text
  after the opening fence, whatever it is, and \<open>renderCodeBlock\<close> writes it into the
  \<open>class\<close> attribute as it is, where the link and image branches escape their \<open>href\<close>,
  \<open>src\<close> and \<open>alt\<close>. On a fence followed by \<open>"><b>\<close> the quote closes the attribute and
  the tag that follows is markup of the output. The highlighter throws on that
  language, and the code itself is escaped.
\<close>

theorem code_block_language_not_escaped:
  \<open>parse (tokenize ''```"><b>\<newline>x<y\<newline>```'')
     = Inr (DocumentNode [CodeBlockNode (Some ''"><b>'') (Some ''x<y'')])
   \<and> renderNode no_highlighter default_options (CodeBlockNode (Some ''"><b>'') (Some ''x<y''))
     = ''<pre><code class="language-"><b>">x&lt;y</code></pre>''
   \<and> escapeHtml (Some ''"><b>'') = ''&quot;&gt;&lt;b&gt;''\<close>
  by code_simp

section \<open>Properties of inline resolution\<close>

lemma flush_text_flat: "list_all flat_inline (fst st) \<Longrightarrow> list_all flat_inline (fst (flush_text st))"
  by (cases st) (simp add: flush_text_def)

lemma push_node_flat:
  "list_all flat_inline (fst st) \<Longrightarrow> flat_inline n \<Longrightarrow> list_all flat_inline (fst (push_node st n))"
  by (cases st) (simp add: push_node_def)

lemma check_bold_flat:
  "list_all flat_inline (fst st) \<Longrightarrow>
     (case check_bold text i st of Continue i' st' \<Rightarrow> list_all flat_inline (fst st')
      | Fallthrough st' \<Rightarrow> list_all flat_inline (fst st'))"
  by (simp add: check_bold_def Let_def flush_text_flat push_node_flat split: option.split)

lemma check_italic_flat:
  "list_all flat_inline (fst st) \<Longrightarrow>
     (case check_italic text i st of Continue i' st' \<Rightarrow> list_all flat_inline (fst st')
      | Fallthrough st' \<Rightarrow> list_all flat_inline (fst st'))"
  by (simp add: check_italic_def Let_def flush_text_flat push_node_flat split: option.split)

lemma check_inline_code_flat:
  "list_all flat_inline (fst st) \<Longrightarrow>
     (case check_inline_code text i st of Continue i' st' \<Rightarrow> list_all flat_inline (fst st')
      | Fallthrough st' \<Rightarrow> list_all flat_inline (fst st'))"
  by (simp add: check_inline_code_def Let_def flush_text_flat push_node_flat split: option.split)

lemma check_link_flat:
  "list_all flat_inline (fst st) \<Longrightarrow>
     (case check_link text i st of Continue i' st' \<Rightarrow> list_all flat_inline (fst st')
      | Fallthrough st' \<Rightarrow> list_all flat_inline (fst st'))"
  by (simp add: check_link_def Let_def flush_text_flat push_node_flat split: option.split)

lemma check_image_flat:
  "list_all flat_inline (fst st) \<Longrightarrow>
     (case check_image text i st of Continue i' st' \<Rightarrow> list_all flat_inline (fst st')
      | Fallthrough st' \<Rightarrow> list_all flat_inline (fst st'))"
  by (simp add: check_image_def Let_def flush_text_flat push_node_flat split: option.split)

lemma inline_step_flat:
  assumes "list_all flat_inline (fst st)"
  shows "list_all flat_inline (fst (snd (inline_step str i st)))"
proof -
  note b = check_bold_flat [OF assms, of str i]
  show ?thesis
  proof (cases "check_bold str i st")
    case (Continue i' st')
    with b show ?thesis by (simp add: inline_step_def)
  next
    case b1: (Fallthrough st1)
    with b have f1: "list_all flat_inline (fst st1)" by simp
    note it = check_italic_flat [OF f1, of str i]
    show ?thesis
    proof (cases "check_italic str i st1")
      case (Continue i' st')
      with it b1 show ?thesis by (simp add: inline_step_def)
    next
      case b2: (Fallthrough st2)
      with it have f2: "list_all flat_inline (fst st2)" by simp
      note co = check_inline_code_flat [OF f2, of str i]
      show ?thesis
      proof (cases "check_inline_code str i st2")
        case (Continue i' st')
        with co b1 b2 show ?thesis by (simp add: inline_step_def)
      next
        case b3: (Fallthrough st3)
        with co have f3: "list_all flat_inline (fst st3)" by simp
        note li = check_link_flat [OF f3, of str i]
        show ?thesis
        proof (cases "check_link str i st3")
          case (Continue i' st')
          with li b1 b2 b3 show ?thesis by (simp add: inline_step_def)
        next
          case b4: (Fallthrough st4)
          with li have f4: "list_all flat_inline (fst st4)" by simp
          note im = check_image_flat [OF f4, of str i]
          show ?thesis
          proof (cases "check_image str i st4")
            case (Continue i' st')
            with im b1 b2 b3 b4 show ?thesis by (simp add: inline_step_def)
          next
            case b5: (Fallthrough st5)
            with im b1 b2 b3 b4 show ?thesis by (simp add: inline_step_def)
          qed
        qed
      qed
    qed
  qed
qed

lemma inline_loop_flat:
  "list_all flat_inline (fst st) \<Longrightarrow> list_all flat_inline (inline_loop str i st)"
proof (induction str i st rule: inline_loop.induct)
  case (1 str i st)
  show ?case
  proof (cases "i < length str")
    case True
    have "list_all flat_inline (fst (snd (inline_step str i st)))"
      by (rule inline_step_flat) (rule "1.prems")
    with "1.IH" True show ?thesis by (subst inline_loop.simps) simp
  next
    case False
    with "1.prems" show ?thesis by (subst inline_loop.simps) (simp add: flush_text_flat)
  qed
qed

lemma parseInlineContent_flat: "list_all flat_inline (parseInlineContent text)"
  by (simp add: parseInlineContent_def inline_loop_flat split: option.split)

lemma flat_markup_render: "flat_inline n \<Longrightarrow> renderNode hl opts n = flat_markup n"
  by (induction n rule: flat_inline.induct)
    (simp_all add: renderInlineContent_def or_empty_def escapeHtml_chars escape_text_def)

lemma list_all_map_eq: "list_all P xs \<Longrightarrow> (\<And>x. P x \<Longrightarrow> f x = g x) \<Longrightarrow> map f xs = map g xs"
  by (induction xs) simp_all

text \<open>
  C10. Every node that \<open>parseInlineContent\<close> returns is of depth one: a text, bold,
  italic, inline-code, link or image node with a string content and no \<open>children\<close>.
  The renderer emits each of them as its tag around the content with every \<open>&\<close>, \<open><\<close>,
  \<open>>\<close> and quote replaced by its entity, so that a marker inside a span comes out as its
  characters: the bold marker in a link label and the italic marker inside a bold span
  below; and so does a \<open><\<close>, an \<open>&\<close> or a quote inside a span, as its entity.
\<close>

theorem inline_nodes_are_flat:
  \<open>list_all flat_inline (parseInlineContent text)
   \<and> map (renderNode hl opts) (parseInlineContent text) = map flat_markup (parseInlineContent text)
   \<and> map (renderNode hl opts) (parseInlineContent (Some ''[**b**](u)'')) = [''<a href="u">**b**</a>'']
   \<and> map (renderNode hl opts) (parseInlineContent (Some ''**a *b* c**'')) = [''<strong>a *b* c</strong>'']
   \<and> map (renderNode hl opts) (parseInlineContent (Some ''**a<b** [x&y](u"v)''))
       = [''<strong>a&lt;b</strong>'', '' '', ''<a href="u&quot;v">x&amp;y</a>'']
   \<and> map (renderNode hl opts) (parseInlineContent (Some ''*<i>* `a>b` ![it's](s"t)''))
       = [''<em>&lt;i&gt;</em>'', '' '', ''<code>a&gt;b</code>'', '' '',
          ''<img src="s&quot;t" alt="it&#39;s" />'']\<close>
proof -
  have a: "list_all flat_inline (parseInlineContent text)" by (rule parseInlineContent_flat)
  have b: "map (renderNode hl opts) (parseInlineContent text) = map flat_markup (parseInlineContent text)"
    by (rule list_all_map_eq [OF a]) (rule flat_markup_render)
  have c: \<open>map (renderNode hl opts) (parseInlineContent (Some ''[**b**](u)'')) = [''<a href="u">**b**</a>'']\<close>
    by code_simp
  have d: "map (renderNode hl opts) (parseInlineContent (Some ''**a *b* c**'')) = [''<strong>a *b* c</strong>'']"
    by code_simp
  have e: \<open>map (renderNode hl opts) (parseInlineContent (Some ''**a<b** [x&y](u"v)''))
       = [''<strong>a&lt;b</strong>'', '' '', ''<a href="u&quot;v">x&amp;y</a>'']\<close>
    by code_simp
  have f: \<open>map (renderNode hl opts) (parseInlineContent (Some ''*<i>* `a>b` ![it's](s"t)''))
       = [''<em>&lt;i&gt;</em>'', '' '', ''<code>a&gt;b</code>'', '' '',
          ''<img src="s&quot;t" alt="it&#39;s" />'']\<close>
    by code_simp
  from a b c d e f show ?thesis by blast
qed

theorem inline_nodes_are_flat_witness:
  \<open>list_all flat_inline (parseInlineContent (Some ''*a<b* **c&d**''))
   \<and> map (renderNode no_highlighter default_options) (parseInlineContent (Some ''*a<b* **c&d**''))
       = [''<em>a&lt;b</em>'', '' '', ''<strong>c&amp;d</strong>'']\<close>
proof -
  have m: \<open>map flat_markup (parseInlineContent (Some ''*a<b* **c&d**''))
      = [''<em>a&lt;b</em>'', '' '', ''<strong>c&amp;d</strong>'']\<close>
    by code_simp
  from inline_nodes_are_flat [of "Some ''*a<b* **c&d**''" no_highlighter default_options]
  have "list_all flat_inline (parseInlineContent (Some ''*a<b* **c&d**''))
    \<and> map (renderNode no_highlighter default_options) (parseInlineContent (Some ''*a<b* **c&d**''))
       = map flat_markup (parseInlineContent (Some ''*a<b* **c&d**''))"
    by blast
  then show ?thesis by (simp only: m)
qed

lemma substring_take_drop: "substring s k (k + n) = take n (drop k s)"
  by (simp add: substring_def Let_def min_def max_def)

lemma find_sub_Some:
  "find_sub p s = Some k \<Longrightarrow>
     take (length p) (drop k s) = p \<and> (\<forall>j<k. take (length p) (drop j s) \<noteq> p)"
proof (induction s arbitrary: k)
  case Nil
  then show ?case by (simp split: if_splits)
next
  case (Cons x xs)
  show ?case
  proof (cases "take (length p) (x # xs) = p")
    case True
    with Cons.prems show ?thesis by simp
  next
    case False
    with Cons.prems obtain k' where k': "find_sub p xs = Some k'" "k = Suc k'" by auto
    from Cons.IH [OF k'(1)] False k'(2) show ?thesis
      by (auto simp: less_Suc_eq_0_disj)
  qed
qed

lemma find_sub_None: "find_sub p s = None \<Longrightarrow> take (length p) (drop j s) \<noteq> p"
proof (induction s arbitrary: j)
  case Nil
  then show ?case by (auto split: if_splits)
next
  case (Cons x xs)
  then show ?case by (cases j) (auto split: if_splits)
qed

lemma indexOf_Some:
  assumes "indexOf s p from = Some k"
  shows "from \<le> k" and "take (length p) (drop k s) = p"
    and "\<And>j. from \<le> j \<Longrightarrow> j < k \<Longrightarrow> take (length p) (drop j s) \<noteq> p"
proof -
  from assms obtain k' where k': "find_sub p (drop from s) = Some k'" "k = from + k'"
    by (auto simp: indexOf_def)
  from k' show "from \<le> k" by simp
  from find_sub_Some [OF k'(1)] k'(2) show "take (length p) (drop k s) = p"
    by (simp add: add.commute)
  fix j assume j: "from \<le> j" "j < k"
  then have "j - from < k'" using k'(2) by simp
  with find_sub_Some [OF k'(1)] have "take (length p) (drop (j - from) (drop from s)) \<noteq> p"
    by blast
  with j show "take (length p) (drop j s) \<noteq> p" by simp
qed

lemma indexOf_None:
  assumes "indexOf s p from = None" and "from \<le> j"
  shows "take (length p) (drop j s) \<noteq> p"
proof -
  from assms(1) have "find_sub p (drop from s) = None" by (simp add: indexOf_def)
  from find_sub_None [OF this, of "j - from"] assms(2) show ?thesis by simp
qed

lemma find_sub_absent: "c \<notin> set s \<Longrightarrow> find_sub [c] s = None"
  by (induction s) auto

lemma indexOf_absent: "c \<notin> set (drop from s) \<Longrightarrow> indexOf s [c] from = None"
  by (simp add: indexOf_def find_sub_absent)

lemma take2_drop:
  assumes "take 2 (drop i s) = [a, b]"
  shows "i + 1 < length s" and "s ! i = a" and "s ! (i + 1) = b"
proof -
  from assms have "length (take 2 (drop i s)) = 2" by simp
  then show len: "i + 1 < length s" by (simp add: min_def split: if_splits)
  then have "drop i s = s ! i # s ! (i + 1) # drop (i + 2) s"
    by (metis Cons_nth_drop_Suc Suc_eq_plus1 Suc_lessD add_Suc_right one_add_one)
  with assms show "s ! i = a" and "s ! (i + 1) = b" by simp_all
qed

lemma snd_flush_text: "snd (flush_text st) = []"
  by (cases st) (simp add: flush_text_def)

lemma bold_closed_step:
  assumes "substring s i (i + 2) = ''**''" and "indexOf s ''**'' (i + 2) = Some e"
  shows "inline_step s i st =
     (e + 2, push_node (flush_text st) (BoldNode (Some (substring s (i + 2) e)) None))"
  using assms by (simp add: inline_step_def check_bold_def)

lemma bold_unclosed_step:
  assumes "substring s i (i + 2) = ''**''" and "indexOf s ''**'' (i + 2) = None"
  shows "inline_step s i st = (i + 1, fst (flush_text st), ''*'')"
proof -
  from assms(1) have t: "take 2 (drop i s) = ''**''" by (simp only: substring_take_drop)
  note c = take2_drop [OF t]
  from assms have b: "check_bold s i st = Fallthrough (flush_text st)"
    by (simp add: check_bold_def)
  from c have it: "check_italic s i (flush_text st) = Fallthrough (flush_text st)"
    by (simp add: check_italic_def charAt_def)
  from c have co: "check_inline_code s i (flush_text st) = Fallthrough (flush_text st)"
    by (simp add: check_inline_code_def charAt_def BACKTICK_def)
  from c have li: "check_link s i (flush_text st) = Fallthrough (flush_text st)"
    by (simp add: check_link_def charAt_def)
  from assms(1) have im: "check_image s i (flush_text st) = Fallthrough (flush_text st)"
    by (simp add: check_image_def)
  from c show ?thesis
    by (simp add: inline_step_def b it co li im snd_flush_text)
qed

lemma second_asterisk_step:
  assumes "substring s i (i + 2) = ''**''" and "CHR ''*'' \<notin> set (drop (i + 2) s)"
  shows "inline_step s (Suc i) (children, ''*'')
     = (Suc (Suc i), children @ [TextNode (Some ''*'')], ''*'')"
proof -
  from assms(1) have t: "take 2 (drop i s) = ''**''" by (simp only: substring_take_drop)
  note c = take2_drop [OF t]
  have nxt: "charAt s (Suc (Suc i)) \<noteq> Some (CHR ''*'')"
  proof (cases "i + 2 < length s")
    case True
    then have "s ! (i + 2) \<in> set (drop (i + 2) s)"
      by (metis Cons_nth_drop_Suc list.set_intros(1))
    with assms(2) True show ?thesis by (auto simp: charAt_def)
  next
    case False
    then show ?thesis by (simp add: charAt_def)
  qed
  have "take 2 (drop (Suc i) s) \<noteq> ''**''"
  proof
    assume "take 2 (drop (Suc i) s) = ''**''"
    from take2_drop [OF this] have "Suc (Suc i) < length s" "s ! (Suc (Suc i)) = CHR ''*''"
      by simp_all
    with nxt show False by (simp add: charAt_def)
  qed
  then have "substring s (Suc i) (Suc i + 2) \<noteq> ''**''"
    by (metis substring_take_drop)
  then have b: "check_bold s (Suc i) (children, ''*'') = Fallthrough (children, ''*'')"
    by (simp add: check_bold_def)
  have "indexOf s ''*'' (i + 2) = None"
    using assms(2) by (rule indexOf_absent)
  then have ix: "indexOf s ''*'' (Suc (Suc i)) = None" by simp
  from c nxt ix
  have it: "check_italic s (Suc i) (children, ''*'')
      = Fallthrough (children @ [TextNode (Some ''*'')], [])"
    by (simp add: check_italic_def charAt_def flush_text_def)
  from c have co: "check_inline_code s (Suc i) (children @ [TextNode (Some ''*'')], [])
      = Fallthrough (children @ [TextNode (Some ''*'')], [])"
    by (simp add: check_inline_code_def charAt_def BACKTICK_def)
  from c have li: "check_link s (Suc i) (children @ [TextNode (Some ''*'')], [])
      = Fallthrough (children @ [TextNode (Some ''*'')], [])"
    by (simp add: check_link_def charAt_def)
  have "take 2 (drop (Suc i) s) \<noteq> ''![''"
  proof
    assume "take 2 (drop (Suc i) s) = ''![''"
    from take2_drop(2) [OF this] c show False by simp
  qed
  then have "substring s (Suc i) (Suc i + 2) \<noteq> ''![''"
    by (metis substring_take_drop)
  then have im: "check_image s (Suc i) (children @ [TextNode (Some ''*'')], [])
      = Fallthrough (children @ [TextNode (Some ''*'')], [])"
    by (simp add: check_image_def)
  from c show ?thesis
    by (simp add: inline_step_def b it co li im)
qed

lemma length_two_asterisks: "length ''**'' = 2"
  by simp

lemma inline_loop_step:
  "i < length s \<Longrightarrow>
     inline_loop s i st = inline_loop s (fst (inline_step s i st)) (snd (inline_step s i st))"
  by (subst inline_loop.simps) simp

text \<open>
  C8, as the code has it. Where the scan stands on \<open>**\<close>: when a closing \<open>**\<close> occurs
  two characters on or later, the step pushes one bold node whose content ends at the
  first such occurrence \<open>e\<close> and continues after it; when none occurs, the step pushes no
  node, the first asterisk goes to the text buffer and the scan moves by one character.
  The second asterisk is then scanned on its own: when no asterisk follows it in the
  string, it ends up as literal text as well. In \<open>**a*b**c*\<close> the bold content is
  \<open>a*b\<close>, up to the first closing marker; in \<open>**a**b**\<close> it is \<open>a\<close>, and the last
  two asterisks, which nothing closes, are literal text.
\<close>

theorem bold_needs_first_closing_marker:
  assumes "substring s i (i + 2) = ''**''"
  shows "(indexOf s ''**'' (i + 2) = Some e \<longrightarrow>
           inline_step s i st =
             (e + 2, push_node (flush_text st) (BoldNode (Some (substring s (i + 2) e)) None))
           \<and> i + 2 \<le> e \<and> substring s e (e + 2) = ''**''
           \<and> (\<forall>k. i + 2 \<le> k \<and> k < e \<longrightarrow> substring s k (k + 2) \<noteq> ''**''))
       \<and> (indexOf s ''**'' (i + 2) = None \<longrightarrow>
           inline_step s i st = (i + 1, fst (flush_text st), ''*'')
           \<and> (\<forall>k. i + 2 \<le> k \<longrightarrow> substring s k (k + 2) \<noteq> ''**''))
       \<and> (CHR ''*'' \<notin> set (drop (i + 2) s) \<longrightarrow>
           inline_step s (i + 1) (fst (flush_text st), ''*'')
             = (i + 2, fst (flush_text st) @ [TextNode (Some ''*'')], ''*''))
       \<and> parseInlineContent (Some ''**a*b**c*'')
           = [BoldNode (Some ''a*b'') None, TextNode (Some ''c''), TextNode (Some ''*'')]
       \<and> parseInlineContent (Some ''**a**b**'')
           = [BoldNode (Some ''a'') None, TextNode (Some ''b''), TextNode (Some ''*''),
              TextNode (Some ''*'')]"
proof (intro conjI impI)
  assume e: "indexOf s ''**'' (i + 2) = Some e"
  note ix = indexOf_Some [OF e]
  show "inline_step s i st =
      (e + 2, push_node (flush_text st) (BoldNode (Some (substring s (i + 2) e)) None))"
    by (rule bold_closed_step [OF assms e])
  show "i + 2 \<le> e" by (rule ix(1))
  show "substring s e (e + 2) = ''**''"
    using ix(2) [unfolded length_two_asterisks] by (simp only: substring_take_drop)
  show "\<forall>k. i + 2 \<le> k \<and> k < e \<longrightarrow> substring s k (k + 2) \<noteq> ''**''"
    using ix(3) [unfolded length_two_asterisks] by (simp only: substring_take_drop) blast
next
  assume n: "indexOf s ''**'' (i + 2) = None"
  show "inline_step s i st = (i + 1, fst (flush_text st), ''*'')"
    by (rule bold_unclosed_step [OF assms n])
  show "\<forall>k. i + 2 \<le> k \<longrightarrow> substring s k (k + 2) \<noteq> ''**''"
    using indexOf_None [OF n, unfolded length_two_asterisks]
    by (simp only: substring_take_drop) blast
next
  assume "CHR ''*'' \<notin> set (drop (i + 2) s)"
  from second_asterisk_step [OF assms this]
  show "inline_step s (i + 1) (fst (flush_text st), ''*'')
      = (i + 2, fst (flush_text st) @ [TextNode (Some ''*'')], ''*'')"
    by simp
next
  show "parseInlineContent (Some ''**a*b**c*'')
      = [BoldNode (Some ''a*b'') None, TextNode (Some ''c''), TextNode (Some ''*'')]"
    by code_simp
  show "parseInlineContent (Some ''**a**b**'')
      = [BoldNode (Some ''a'') None, TextNode (Some ''b''), TextNode (Some ''*''),
         TextNode (Some ''*'')]"
    by code_simp
qed

theorem bold_needs_first_closing_marker_witness:
  "substring ''**a**b**'' 0 (0 + 2) = ''**''
   \<and> indexOf ''**a**b**'' ''**'' (0 + 2) = Some 3
   \<and> inline_step ''**a**b**'' 0 ([], []) = (5, [BoldNode (Some ''a'') None], [])
   \<and> substring ''**a'' 0 (0 + 2) = ''**''
   \<and> indexOf ''**a'' ''**'' (0 + 2) = None
   \<and> CHR ''*'' \<notin> set (drop (0 + 2) ''**a'')
   \<and> inline_step ''**a'' 0 ([], []) = (1, [], ''*'')
   \<and> inline_step ''**a'' 1 ([], ''*'') = (2, [TextNode (Some ''*'')], ''*'')"
proof -
  have h1: "substring ''**a**b**'' 0 (0 + 2) = ''**''" by code_simp
  have e1: "indexOf ''**a**b**'' ''**'' (0 + 2) = Some 3" by code_simp
  have h2: "substring ''**a'' 0 (0 + 2) = ''**''" by code_simp
  have e2: "indexOf ''**a'' ''**'' (0 + 2) = None" by code_simp
  have e3: "CHR ''*'' \<notin> set (drop (0 + 2) ''**a'')" by simp
  have s1: "push_node (flush_text ([], [])) (BoldNode (Some (substring ''**a**b**'' (0 + 2) 3)) None)
      = ([BoldNode (Some ''a'') None], [])"
    by code_simp
  have s2: "fst (flush_text ([], [])) = []" by code_simp
  from bold_needs_first_closing_marker [OF h1, of 3 "([], [])"] e1 s1
  have a: "inline_step ''**a**b**'' 0 ([], []) = (5, [BoldNode (Some ''a'') None], [])"
    by simp
  from bold_needs_first_closing_marker [OF h2, of 0 "([], [])"] e2 e3 s2
  have b: "inline_step ''**a'' 0 ([], []) = (1, [], ''*'')
      \<and> inline_step ''**a'' 1 ([], ''*'') = (2, [TextNode (Some ''*'')], ''*'')"
    by simp
  from h1 e1 a h2 e2 e3 b show ?thesis by blast
qed

text \<open>
  C8, as the specification has it, fails on \<open>**a*b\<close>: no closing \<open>**\<close> follows, and yet only the
  first asterisk is literal text in the output; the second one opens an italic span
  that the single asterisk closes.
\<close>

theorem unclosed_bold_second_asterisk_opens_italic:
  "indexOf ''**a*b'' ''**'' 2 = None
   \<and> parseInlineContent (Some ''**a*b'')
       = [TextNode (Some ''*''), ItalicNode (Some ''a'') None, TextNode (Some ''b'')]
   \<and> join (map (renderNode no_highlighter default_options) (parseInlineContent (Some ''**a*b''))) []
       = ''*<em>a</em>b''"
  by code_simp

section \<open>Properties of the parser\<close>

lemma collect_run:
  "collect ty mk p acc =
     Inr (acc @ map mk (takeWhile (has_type ty) (drop (current p) (tokens p))),
          p\<lparr>current := current p + length (takeWhile (has_type ty) (drop (current p) (tokens p)))\<rparr>)"
proof (induction ty mk p acc rule: collect.induct)
  case (1 ty mk p acc)
  show ?case
  proof (cases "isAtEnd p")
    case True
    then show ?thesis by (subst collect.simps) (simp add: isAtEnd_def)
  next
    case False
    then have d: "drop (current p) (tokens p) = tokens p ! current p # drop (current p + 1) (tokens p)"
      by (simp add: isAtEnd_def Cons_nth_drop_Suc)
    from False have pk: "peek p = Some (tokens p ! current p)" by (simp add: peek_def)
    from False have adv: "advance p = (Some (tokens p ! current p), p\<lparr>current := current p + 1\<rparr>)"
      by (rule advance_cursor)
    show ?thesis
    proof (cases "t_type (tokens p ! current p) = ty")
      case True
      from "1.IH" [OF False pk True] adv
      have "collect ty mk (p\<lparr>current := current p + 1\<rparr>) (acc @ [mk (tokens p ! current p)])
        = Inr ((acc @ [mk (tokens p ! current p)])
                 @ map mk (takeWhile (has_type ty) (drop (current p + 1) (tokens p))),
               p\<lparr>current := current p + 1
                    + length (takeWhile (has_type ty) (drop (current p + 1) (tokens p)))\<rparr>)"
        by simp
      with False pk adv True show ?thesis
        by (subst collect.simps) (simp add: d has_type_def)
    next
      case nt: False
      with False pk show ?thesis
        by (subst collect.simps) (simp add: d has_type_def)
    qed
  qed
qed

lemma parseNode_node_at:
  assumes "k < length ts"
  shows "parseNode \<lparr>tokens = ts, current = k\<rparr>
    = Inr (fst (node_at (drop k ts)), \<lparr>tokens = ts, current = k + snd (node_at (drop k ts))\<rparr>)"
proof -
  let ?p = "\<lparr>tokens = ts, current = k\<rparr>"
  from assms have ne: "\<not> isAtEnd ?p" by (simp add: isAtEnd_def)
  from assms have d: "drop k ts = ts ! k # drop (k + 1) ts" by (simp add: Cons_nth_drop_Suc)
  from ne have pk: "peek ?p = Some (ts ! k)" by (simp add: peek_def)
  from advance_cursor [OF ne] have adv: "advance ?p = (Some (ts ! k), \<lparr>tokens = ts, current = k + 1\<rparr>)"
    by simp
  have run: "takeWhile (has_type ty) (drop k ts) = ts ! k # takeWhile (has_type ty) (drop (k + 1) ts)"
    if "t_type (ts ! k) = ty" for ty
    using that by (simp add: d has_type_def)
  show ?thesis
    by (simp add: parseNode_def pk adv some_node_def parseHeader_def parseCodeBlock_def
        parseList_def parseOrderedList_def parseBlockquote_def parseHorizontalRule_def
        parseTable_def parseParagraph_def parseText_def collect_run node_at_def
        blockquote_of_def d [symmetric])
      (simp add: d has_type_def blockquote_of_def)
qed

lemma parse_loop_build:
  "parse_loop p acc = Inr (DocumentNode (acc @ build (drop (current p) (tokens p))))"
proof (induction p acc rule: parse_loop.induct)
  case (1 p children)
  show ?case
  proof (cases "isAtEnd p")
    case True
    then show ?thesis
      by (subst parse_loop.simps, subst build.simps) (simp add: isAtEnd_def)
  next
    case False
    then have k: "current p < length (tokens p)" by (simp add: isAtEnd_def)
    have p: "p = \<lparr>tokens = tokens p, current = current p\<rparr>" by simp
    let ?ts = "drop (current p) (tokens p)"
    from parseNode_node_at [OF k] p
    have pn: "parseNode p = Inr (fst (node_at ?ts),
        \<lparr>tokens = tokens p, current = current p + snd (node_at ?ts)\<rparr>)"
      by simp
    from k have ne: "?ts \<noteq> []" by simp
    from "1.IH" [OF False pn]
    have "parse_loop \<lparr>tokens = tokens p, current = current p + snd (node_at ?ts)\<rparr>
        (case fst (node_at ?ts) of None \<Rightarrow> children | Some node \<Rightarrow> children @ [node])
      = Inr (DocumentNode ((case fst (node_at ?ts) of None \<Rightarrow> children | Some node \<Rightarrow> children @ [node])
          @ build (drop (current p + snd (node_at ?ts)) (tokens p))))"
      by simp
    moreover have "build ?ts = (case fst (node_at ?ts) of None \<Rightarrow> [] | Some n \<Rightarrow> [n])
        @ build (drop (current p + snd (node_at ?ts)) (tokens p))"
      using ne by (subst build.simps) (simp add: add.commute)
    ultimately show ?thesis
      using False pn by (subst parse_loop.simps) (simp split: option.split)
  qed
qed

lemma parse_build: "parse ts = Inr (DocumentNode (build ts))"
  by (simp add: parse_def parse_loop_build)


lemma takeWhile_boundary:
  assumes "pre \<noteq> []" and "rest = [] \<or> \<not> has_type ty (last pre) \<or> \<not> has_type ty (hd rest)"
  shows "takeWhile (has_type ty) (pre @ rest) = takeWhile (has_type ty) pre"
proof (cases "list_all (has_type ty) pre")
  case True
  with assms(1) have "has_type ty (last pre)" by (simp add: list_all_iff)
  with assms(2) have "rest = [] \<or> \<not> has_type ty (hd rest)" by blast
  then have r: "takeWhile (has_type ty) rest = []" by (cases rest) auto
  from True have tw: "takeWhile (has_type ty) (pre @ rest) = pre @ takeWhile (has_type ty) rest"
    by (simp add: list_all_iff)
  from True have tp: "takeWhile (has_type ty) pre = pre" by (simp add: list_all_iff)
  show ?thesis unfolding tw tp r by simp
next
  case False
  then obtain x where "x \<in> set pre" "\<not> has_type ty x" by (auto simp: list_all_iff)
  then show ?thesis by (simp add: takeWhile_append1)
qed

lemma node_at_boundary:
  assumes "pre \<noteq> []" and "rest = [] \<or> \<not> joins (last pre) (hd rest)"
  shows "node_at (pre @ rest) = node_at pre"
proof -
  obtain t ts where pre: "pre = t # ts" using assms(1) by (cases pre) auto
  have run: "takeWhile (has_type ty) (pre @ rest) = takeWhile (has_type ty) pre"
    if "ty \<in> set [''list_item'', ''ordered_list_item'', ''table_row'']" for ty
  proof (rule takeWhile_boundary [OF assms(1)])
    from assms(2) that
    show "rest = [] \<or> \<not> has_type ty (last pre) \<or> \<not> has_type ty (hd rest)"
      by (auto simp: joins_def has_type_def)
  qed
  have r1: "takeWhile (has_type ''list_item'') (pre @ rest) = takeWhile (has_type ''list_item'') pre"
    by (rule run) simp
  have r2: "takeWhile (has_type ''ordered_list_item'') (pre @ rest)
      = takeWhile (has_type ''ordered_list_item'') pre"
    by (rule run) simp
  have r3: "takeWhile (has_type ''table_row'') (pre @ rest) = takeWhile (has_type ''table_row'') pre"
    by (rule run) simp
  from r1 r2 r3 show ?thesis
    by (simp add: node_at_def pre)
qed

lemma node_at_le: "snd (node_at ts) \<le> length ts"
proof (cases ts)
  case Nil
  then show ?thesis by (simp add: node_at_def)
next
  case (Cons t rest)
  have "length (takeWhile P ts) \<le> length ts" for P :: "token \<Rightarrow> bool"
    by (rule length_takeWhile_le)
  then show ?thesis
    by (auto simp: node_at_def Cons)
qed

lemma build_Nil: "build [] = []"
  by (subst build.simps) simp

lemma build_append:
  "pre = [] \<or> rest = [] \<or> \<not> joins (last pre) (hd rest) \<Longrightarrow>
     build (pre @ rest) = build pre @ build rest"
proof (induction pre rule: build.induct)
  case (1 pre)
  show ?case
  proof (cases "pre = []")
    case True
    then show ?thesis by (simp add: build_Nil)
  next
    case False
    with "1.prems" have b: "rest = [] \<or> \<not> joins (last pre) (hd rest)" by blast
    note na = node_at_boundary [OF False b]
    let ?k = "snd (node_at pre)"
    have le: "?k \<le> length pre" by (rule node_at_le)
    have "drop ?k pre = [] \<or> rest = [] \<or> \<not> joins (last (drop ?k pre)) (hd rest)"
    proof (cases "drop ?k pre = []")
      case True
      then show ?thesis by simp
    next
      case nd: False
      then have "last (drop ?k pre) = last pre" by simp
      with b show ?thesis by simp
    qed
    from "1.IH" [OF False this]
    have ih: "build (drop ?k pre @ rest) = build (drop ?k pre) @ build rest" .
    from le have dr: "drop ?k (pre @ rest) = drop ?k pre @ rest" by simp
    have "build (pre @ rest) = (case fst (node_at pre) of None \<Rightarrow> [] | Some n \<Rightarrow> [n])
        @ build (drop ?k pre @ rest)"
      using False le by (subst build.simps) (simp add: na)
    also have "\<dots> = ((case fst (node_at pre) of None \<Rightarrow> [] | Some n \<Rightarrow> [n])
        @ build (drop ?k pre)) @ build rest"
      by (simp add: ih)
    also have "(case fst (node_at pre) of None \<Rightarrow> [] | Some n \<Rightarrow> [n]) @ build (drop ?k pre)
        = build pre"
      using False by (subst (2) build.simps) simp
    finally show ?thesis .
  qed
qed

lemma build_list_run:
  assumes "run \<noteq> []" and "list_all (has_type ''list_item'') run"
    and "post = [] \<or> \<not> has_type ''list_item'' (hd post)"
  shows "build (run @ post) = ListNode (map list_item_of run) # build post"
proof -
  from assms(3) have "takeWhile (has_type ''list_item'') post = []" by (cases post) auto
  with assms(2) have tw: "takeWhile (has_type ''list_item'') (run @ post) = run"
    by (simp add: takeWhile_append2 list_all_iff)
  obtain t ts where run: "run = t # ts" using assms(1) by (cases run) auto
  with assms(2) have ty: "t_type t = ''list_item''" by (simp add: has_type_def)
  have na: "node_at (run @ post) = (Some (ListNode (map list_item_of run)), length run)"
    using tw ty by (simp add: node_at_def run)
  from assms(1) show ?thesis
    by (subst build.simps) (simp add: na)
qed

lemma build_blockquotes:
  "list_all (has_type ''blockquote'') run \<Longrightarrow>
     build (run @ post) = map blockquote_of run @ build post"
proof (induction run)
  case Nil
  then show ?case by simp
next
  case (Cons t run)
  then have ty: "t_type t = ''blockquote''" by (simp add: has_type_def)
  then have na: "node_at (t # run @ post) = (Some (blockquote_of t), 1)"
    by (simp add: node_at_def)
  have "build ((t # run) @ post) = blockquote_of t # build (run @ post)"
    by (subst build.simps) (simp add: na)
  with Cons show ?case by simp
qed

text \<open>
  C7. A maximal run of \<open>list_item\<close> tokens, between a prefix that does not end with one
  and a suffix that does not start with one, becomes exactly one list node between the
  nodes of the prefix and the nodes of the suffix, with one item per token, each with
  its own inline children. Two \<open>- item\<close> lines give one list node with two items, and
  an unordered item followed by an ordered item gives two list nodes.
\<close>

theorem list_items_grouped:
  assumes "run \<noteq> []" and "list_all (has_type ''list_item'') run"
    and "pre = [] \<or> \<not> has_type ''list_item'' (last pre)"
    and "post = [] \<or> \<not> has_type ''list_item'' (hd post)"
  shows "(\<exists>before after.
      parse pre = Inr (DocumentNode before) \<and> parse post = Inr (DocumentNode after)
      \<and> parse (pre @ run @ post)
          = Inr (DocumentNode (before @ [ListNode (map list_item_of run)] @ after)))
    \<and> length (map list_item_of run) = length run
    \<and> list_item_of token
        = ListItem (t_content token) (Some (parseInlineContent (t_content token)))
    \<and> parse (tokenize ''- item\<newline>- item'')
        = Inr (DocumentNode
            [ListNode [ListItem (Some ''item'') (Some [TextNode (Some ''item'')]),
                       ListItem (Some ''item'') (Some [TextNode (Some ''item'')])]])
    \<and> parse (tokenize ''- a\<newline>1. b'')
        = Inr (DocumentNode
            [ListNode [ListItem (Some ''a'') (Some [TextNode (Some ''a'')])],
             OrderedListNode [ListItem (Some ''b'') (Some [TextNode (Some ''b'')])]])"
proof -
  from assms(1,2) have "has_type ''list_item'' (hd (run @ post))"
    by (cases run) simp_all
  with assms(3) have "pre = [] \<or> run @ post = [] \<or> \<not> joins (last pre) (hd (run @ post))"
    by (auto simp: joins_def has_type_def)
  from build_append [OF this] build_list_run [OF assms(1,2,4)]
  have "build (pre @ run @ post) = build pre @ [ListNode (map list_item_of run)] @ build post"
    by simp
  then have a: "\<exists>before after.
      parse pre = Inr (DocumentNode before) \<and> parse post = Inr (DocumentNode after)
      \<and> parse (pre @ run @ post)
          = Inr (DocumentNode (before @ [ListNode (map list_item_of run)] @ after))"
    by (simp add: parse_build)
  have b: "parse (tokenize ''- item\<newline>- item'')
        = Inr (DocumentNode
            [ListNode [ListItem (Some ''item'') (Some [TextNode (Some ''item'')]),
                       ListItem (Some ''item'') (Some [TextNode (Some ''item'')])]])"
    by code_simp
  have c: "parse (tokenize ''- a\<newline>1. b'')
        = Inr (DocumentNode
            [ListNode [ListItem (Some ''a'') (Some [TextNode (Some ''a'')])],
             OrderedListNode [ListItem (Some ''b'') (Some [TextNode (Some ''b'')])]])"
    by code_simp
  from a b c show ?thesis by (simp add: list_item_of_def)
qed

theorem list_items_grouped_witness:
  "parse (tokenize ''# h'' @ tokenize ''- a\<newline>- *b*'' @ tokenize ''1. c'')
     = Inr (DocumentNode
         [HeaderNode (Some 1) (Some ''h'') (Some [TextNode (Some ''h'')]),
          ListNode [ListItem (Some ''a'') (Some [TextNode (Some ''a'')]),
                    ListItem (Some ''*b*'') (Some [ItalicNode (Some ''b'') None])],
          OrderedListNode [ListItem (Some ''c'') (Some [TextNode (Some ''c'')])]])"
proof -
  have h1: "tokenize ''- a\<newline>- *b*'' \<noteq> []" by code_simp
  have h2: "list_all (has_type ''list_item'') (tokenize ''- a\<newline>- *b*'')" by code_simp
  have h3: "tokenize ''# h'' = [] \<or> \<not> has_type ''list_item'' (last (tokenize ''# h''))"
    by code_simp
  have h4: "tokenize ''1. c'' = [] \<or> \<not> has_type ''list_item'' (hd (tokenize ''1. c''))"
    by code_simp
  have p1: "parse (tokenize ''# h'')
      = Inr (DocumentNode [HeaderNode (Some 1) (Some ''h'') (Some [TextNode (Some ''h'')])])"
    by code_simp
  have p2: "parse (tokenize ''1. c'')
      = Inr (DocumentNode [OrderedListNode [ListItem (Some ''c'') (Some [TextNode (Some ''c'')])]])"
    by code_simp
  have m: "map list_item_of (tokenize ''- a\<newline>- *b*'')
      = [ListItem (Some ''a'') (Some [TextNode (Some ''a'')]),
         ListItem (Some ''*b*'') (Some [ItalicNode (Some ''b'') None])]"
    by code_simp
  from list_items_grouped [OF h1 h2 h3 h4]
  obtain before after where
    "parse (tokenize ''# h'') = Inr (DocumentNode before)"
    "parse (tokenize ''1. c'') = Inr (DocumentNode after)"
    "parse (tokenize ''# h'' @ tokenize ''- a\<newline>- *b*'' @ tokenize ''1. c'')
      = Inr (DocumentNode (before @ [ListNode (map list_item_of (tokenize ''- a\<newline>- *b*''))] @ after))"
    by blast
  with p1 p2 m show ?thesis by simp
qed

text \<open>
  C9. A run of \<open>blockquote\<close> tokens becomes one blockquote node per token, in order,
  between the nodes of what precedes and the nodes of what follows: two blockquote
  lines are two nodes.
\<close>

theorem blockquotes_not_merged:
  assumes "run \<noteq> []" and "list_all (has_type ''blockquote'') run"
  shows "(\<exists>before after.
      parse pre = Inr (DocumentNode before) \<and> parse post = Inr (DocumentNode after)
      \<and> parse (pre @ run @ post)
          = Inr (DocumentNode (before @ map blockquote_of run @ after)))
    \<and> length (map blockquote_of run) = length run
    \<and> parse (tokenize ''> a\<newline>> b'')
        = Inr (DocumentNode
            [BlockquoteNode (Some ''a'') (Some [TextNode (Some ''a'')]),
             BlockquoteNode (Some ''b'') (Some [TextNode (Some ''b'')])])"
proof -
  from assms have "pre = [] \<or> run @ post = [] \<or> \<not> joins (last pre) (hd (run @ post))"
    by (cases run) (auto simp: joins_def has_type_def)
  from build_append [OF this] build_blockquotes [OF assms(2)]
  have "build (pre @ run @ post) = build pre @ map blockquote_of run @ build post"
    by simp
  then have a: "\<exists>before after.
      parse pre = Inr (DocumentNode before) \<and> parse post = Inr (DocumentNode after)
      \<and> parse (pre @ run @ post)
          = Inr (DocumentNode (before @ map blockquote_of run @ after))"
    by (simp add: parse_build)
  have b: "parse (tokenize ''> a\<newline>> b'')
        = Inr (DocumentNode
            [BlockquoteNode (Some ''a'') (Some [TextNode (Some ''a'')]),
             BlockquoteNode (Some ''b'') (Some [TextNode (Some ''b'')])])"
    by code_simp
  from a b show ?thesis by simp
qed

theorem blockquotes_not_merged_witness:
  "parse (tokenize ''text'' @ tokenize ''> a\<newline>> b\<newline>> c'' @ tokenize ''---'')
     = Inr (DocumentNode
         [ParagraphNode (Some ''text'') (Some [TextNode (Some ''text'')]),
          BlockquoteNode (Some ''a'') (Some [TextNode (Some ''a'')]),
          BlockquoteNode (Some ''b'') (Some [TextNode (Some ''b'')]),
          BlockquoteNode (Some ''c'') (Some [TextNode (Some ''c'')]),
          HrNode])"
proof -
  have h1: "tokenize ''> a\<newline>> b\<newline>> c'' \<noteq> []" by code_simp
  have h2: "list_all (has_type ''blockquote'') (tokenize ''> a\<newline>> b\<newline>> c'')" by code_simp
  have p1: "parse (tokenize ''text'')
      = Inr (DocumentNode [ParagraphNode (Some ''text'') (Some [TextNode (Some ''text'')])])"
    by code_simp
  have p2: "parse (tokenize ''---'') = Inr (DocumentNode [HrNode])"
    by code_simp
  have m: "map blockquote_of (tokenize ''> a\<newline>> b\<newline>> c'')
      = [BlockquoteNode (Some ''a'') (Some [TextNode (Some ''a'')]),
         BlockquoteNode (Some ''b'') (Some [TextNode (Some ''b'')]),
         BlockquoteNode (Some ''c'') (Some [TextNode (Some ''c'')])]"
    by code_simp
  from blockquotes_not_merged [OF h1 h2, of "tokenize ''text''" "tokenize ''---''"]
  obtain before after where
    "parse (tokenize ''text'') = Inr (DocumentNode before)"
    "parse (tokenize ''---'') = Inr (DocumentNode after)"
    "parse (tokenize ''text'' @ tokenize ''> a\<newline>> b\<newline>> c'' @ tokenize ''---'')
      = Inr (DocumentNode (before @ map blockquote_of (tokenize ''> a\<newline>> b\<newline>> c'') @ after))"
    by blast
  with p1 p2 m show ?thesis by simp
qed

section \<open>Properties of the converter\<close>

text \<open>
  C1. On every string, whatever the options and the highlighter, \<open>convert\<close> returns a
  markup string: the tokens always parse into a document, and the result is the
  rendering of that document in the document shell. On \<open>undefined\<close>, \<open>null\<close>, a number
  or a boolean it fails.
\<close>

theorem convert_fails_only_on_non_strings:
  "(\<exists>doc. parse (tokenize s) = Inr doc
      \<and> convert hl base (JSString s) arg
          = Inr (wrapInDocument (merge_options base arg)
                  (renderNode hl (merge_options base arg) doc)))
   \<and> (\<exists>html. convert hl base (JSString s) arg = Inr html)
   \<and> (\<exists>e. convert hl base JSUndefined arg = Inl e)
   \<and> (\<exists>e. convert hl base JSNull arg = Inl e)
   \<and> (\<exists>e. convert hl base (JSNumber n) arg = Inl e)
   \<and> (\<exists>e. convert hl base (JSBoolean b) arg = Inl e)"
  by (simp add: convert_def tokenize_value_def parse_build render_def Let_def)

theorem convert_fails_only_on_non_strings_witness:
  "(\<exists>html. convert no_highlighter default_options
       (JSString ''**never closed [x](\<newline>```js\<newline>| a'') \<lparr>arg_highlight = None, arg_theme = None\<rparr>
     = Inr html)
   \<and> (\<exists>html. convert no_highlighter default_options (JSString [])
       \<lparr>arg_highlight = None, arg_theme = None\<rparr> = Inr html)
   \<and> convert no_highlighter default_options JSUndefined \<lparr>arg_highlight = None, arg_theme = None\<rparr>
     = Inl (Error (''Conversion failed: Cannot read properties of undefined (reading ''
              @ [SQUOTE] @ ''split'' @ [SQUOTE] @ '')''))"
proof -
  have "convert no_highlighter default_options JSUndefined \<lparr>arg_highlight = None, arg_theme = None\<rparr>
     = Inl (Error (''Conversion failed: Cannot read properties of undefined (reading ''
              @ [SQUOTE] @ ''split'' @ [SQUOTE] @ '')''))"
    by code_simp
  with convert_fails_only_on_non_strings [where hl = no_highlighter and base = default_options
      and s = "''**never closed [x](\<newline>```js\<newline>| a''"
      and arg = "\<lparr>arg_highlight = None, arg_theme = None\<rparr>"]
    convert_fails_only_on_non_strings [where hl = no_highlighter and base = default_options
      and s = "[]" and arg = "\<lparr>arg_highlight = None, arg_theme = None\<rparr>"]
  show ?thesis by blast
qed

end
